theory Spec2Isabelle
  imports
    Main
    "HOL-Library.Word"
    "HOL-Library.Sublist"
    "HOL-Library.List_Lexorder"
    "HOL-Library.Product_Lexorder"
begin

section \<open>Natural-order string comparison (natcmp.h)\<close>

subsection \<open>Bytes, C strings and cursors\<close>

text \<open>
  The inputs of \<^verbatim>\<open>natcmp\<close> are \<^verbatim>\<open>const unsigned char *\<close> pointers to
  null-terminated buffers. A buffer is modelled by the list of the bytes stored in front of
  its terminator, and a pointer into the buffer by the list of the bytes from that position
  on: \<^verbatim>\<open>*s\<close> is the head of the list (the terminator 0 when the list is empty),
  \<^verbatim>\<open>s++\<close> is the tail, and the difference \<^verbatim>\<open>p - s\<close> of two pointers into
  the same buffer is the difference of the lengths. The code never moves a pointer past a
  byte that reads as 0, so a 0 inside the list ends the string exactly as it does in C.
  An output pointer (\<^verbatim>\<open>unsigned char **\<close>) holds either \<^verbatim>\<open>NULL\<close> or such a
  pointer.
\<close>

type_synonym byte = "8 word"
type_synonym cstring = "byte list"
type_synonym ptr = "cstring option"

definition deref :: "cstring \<Rightarrow> byte" where
  "deref s = (case s of [] \<Rightarrow> 0 | c # _ \<Rightarrow> c)"

text \<open>The bytes of a string literal.\<close>

definition bytes :: "string \<Rightarrow> cstring" where
  "bytes s = map (\<lambda>c. of_nat (of_char c)) s"

text \<open>The string a buffer holds: its bytes up to the first 0.\<close>

definition c_str :: "cstring \<Rightarrow> cstring" where
  "c_str s = takeWhile (\<lambda>c. c \<noteq> 0) s"

definition strlen :: "cstring \<Rightarrow> nat" where
  "strlen s = length (c_str s)"

subsection \<open>The C library functions the code calls\<close>

text \<open>
  Modelled from the spec: \<^verbatim>\<open>isdigit\<close>, \<^verbatim>\<open>strncasecmp\<close> and \<^verbatim>\<open>strncmp\<close>
  belong to the C library, not to the repository. They are taken as ISO C and POSIX define
  them in the "C" locale, which is what the specification describes: a byte is a digit
  when it is one of \<^verbatim>\<open>'0'\<close> to \<^verbatim>\<open>'9'\<close> (48 to 57), and case folding maps
  \<^verbatim>\<open>'A'\<close> to \<^verbatim>\<open>'Z'\<close> (65 to 90) to \<^verbatim>\<open>'a'\<close> to \<^verbatim>\<open>'z'\<close> and leaves every
  other byte as it is. \<^verbatim>\<open>isdigit\<close> is read as a truth value. The two comparison
  functions look at no more than \<open>n\<close> bytes, stop at a terminator, compare bytes as
  \<^verbatim>\<open>unsigned char\<close> and return the difference of the first two bytes that differ;
  the callers only look at the sign.
\<close>

definition isdigit :: "byte \<Rightarrow> bool" where
  "isdigit c = (48 \<le> c \<and> c \<le> 57)"

definition tolower :: "byte \<Rightarrow> byte" where
  "tolower c = (if 65 \<le> c \<and> c \<le> 90 then c + 32 else c)"

fun strncasecmp :: "cstring \<Rightarrow> cstring \<Rightarrow> nat \<Rightarrow> int" where
  "strncasecmp s1 s2 0 = 0"
| "strncasecmp s1 s2 (Suc n) =
     (let c1 = tolower (deref s1); c2 = tolower (deref s2)
      in if c1 \<noteq> c2 then uint c1 - uint c2
         else if deref s1 = 0 then 0
         else strncasecmp (tl s1) (tl s2) n)"

fun strncmp :: "cstring \<Rightarrow> cstring \<Rightarrow> nat \<Rightarrow> int" where
  "strncmp s1 s2 0 = 0"
| "strncmp s1 s2 (Suc n) =
     (let c1 = deref s1; c2 = deref s2
      in if c1 \<noteq> c2 then uint c1 - uint c2
         else if c1 = 0 then 0
         else strncmp (tl s1) (tl s2) n)"

subsection \<open>The default strategy: \<^verbatim>\<open>natcmp_nondigit_cmp_ascii\<close>\<close>

text \<open>
  A strategy (\<^verbatim>\<open>natcmp_nondigit_cmp_func_t\<close>) gets the two cursors and the two output
  cells \<^verbatim>\<open>*end_a\<close> and \<^verbatim>\<open>*end_b\<close>; it returns its \<^verbatim>\<open>int\<close> together with
  the contents of the two cells after the call. A cell the strategy does not write keeps
  the value it had.
\<close>

type_synonym natcmp_nondigit_cmp_func_t =
  "cstring \<Rightarrow> cstring \<Rightarrow> ptr \<Rightarrow> ptr \<Rightarrow> int \<times> ptr \<times> ptr"

text \<open>\<^verbatim>\<open>while (*pa && !isdigit(*pa)) { pa++; }\<close>\<close>

fun skip_nondigits :: "cstring \<Rightarrow> cstring" where
  "skip_nondigits [] = []"
| "skip_nondigits (c # s) =
     (if c \<noteq> 0 \<and> \<not> isdigit c then skip_nondigits s else c # s)"

definition natcmp_nondigit_cmp_ascii :: natcmp_nondigit_cmp_func_t where
  "natcmp_nondigit_cmp_ascii a b end_a end_b =
     (let pa = skip_nondigits a;
          pb = skip_nondigits b;
          len_a = length a - length pa;
          len_b = length b - length pb;
          cmp = strncasecmp a b (if len_a < len_b then len_a else len_b)
      in if cmp \<noteq> 0 then (if cmp < 0 then - 1 else 1, end_a, end_b)
         else if len_a \<noteq> len_b then (if len_a < len_b then - 1 else 1, end_a, end_b)
         else (0, Some pa, Some pb))"

subsection \<open>The comparator: \<^verbatim>\<open>natcmp\<close>\<close>

text \<open>
  \<^verbatim>\<open>#define natcmp_skip_leading_zeros(s)
     while (*(s) == '0' && (s)[1] && isdigit((s)[1])) { (s)++; }\<close>
  and
  \<^verbatim>\<open>#define natcmp_skip_digits(s)  while (*(s) && isdigit(*(s))) { (s)++; }\<close>
\<close>

fun natcmp_skip_leading_zeros :: "cstring \<Rightarrow> cstring" where
  "natcmp_skip_leading_zeros (c # d # s) =
     (if c = 48 \<and> d \<noteq> 0 \<and> isdigit d then natcmp_skip_leading_zeros (d # s)
      else c # d # s)"
| "natcmp_skip_leading_zeros s = s"

fun natcmp_skip_digits :: "cstring \<Rightarrow> cstring" where
  "natcmp_skip_digits [] = []"
| "natcmp_skip_digits (c # s) =
     (if c \<noteq> 0 \<and> isdigit c then natcmp_skip_digits s else c # s)"

text \<open>The local struct that describes one number part.\<close>

record numpart =
  head :: cstring
  digits :: cstring
  len :: nat
  tail :: cstring

text \<open>
  What one evaluation of the loop body does: it returns from the function, leaves the loop
  by \<^verbatim>\<open>break\<close>, or reaches the end of the body with new cursors.
\<close>

datatype step = Return int | Break cstring cstring | Continue cstring cstring

text \<open>
  Reading through a \<^verbatim>\<open>NULL\<close> cursor is the one way the function can fail: the caller
  sets both output cells to \<^verbatim>\<open>NULL\<close> before it calls the strategy and reads both
  cursors after a result of 0.
\<close>

datatype error = NullDeref

text \<open>
  Lines 156 to 219: the classification test and the comparison of two number parts, from
  cursors \<open>a\<close> and \<open>b\<close> with the classifications \<open>isdigit_a\<close> and \<open>isdigit_b\<close>
  read before.
\<close>

definition natcmp_number :: "bool \<Rightarrow> bool \<Rightarrow> cstring \<Rightarrow> cstring \<Rightarrow> step" where
  "natcmp_number isdigit_a isdigit_b a b =
     (if isdigit_a \<noteq> isdigit_b then Return (if isdigit_a then - 1 else 1)
      else
        let an_digits = natcmp_skip_leading_zeros a;
            bn_digits = natcmp_skip_leading_zeros b;
            an_tail = natcmp_skip_digits an_digits;
            bn_tail = natcmp_skip_digits bn_digits;
            an = \<lparr>head = a, digits = an_digits,
                  len = length an_digits - length an_tail, tail = an_tail\<rparr>;
            bn = \<lparr>head = b, digits = bn_digits,
                  len = length bn_digits - length bn_tail, tail = bn_tail\<rparr>
        in if len an \<noteq> len bn then Return (if len an < len bn then - 1 else 1)
           else
             let cmp = strncmp (digits an) (digits bn) (len an)
             in if cmp \<noteq> 0 then Return (if cmp < 0 then - 1 else 1)
                else
                  let an = an\<lparr>len := length (head an) - length (tail an)\<rparr>;
                      bn = bn\<lparr>len := length (head bn) - length (tail bn)\<rparr>
                  in if len an \<noteq> len bn then Return (if len an < len bn then - 1 else 1)
                     else Continue (tail an) (tail bn))"

text \<open>Lines 133 to 219: the body of the loop, entered with \<^verbatim>\<open>*a && *b\<close>.\<close>

definition natcmp_body :: "natcmp_nondigit_cmp_func_t \<Rightarrow> cstring \<Rightarrow> cstring \<Rightarrow> error + step" where
  "natcmp_body compare a b =
     (let isdigit_a = isdigit (deref a);
          isdigit_b = isdigit (deref b)
      in if \<not> isdigit_a \<and> \<not> isdigit_b then
           (case compare a b None None of
              (res, end_a, end_b) \<Rightarrow>
                if res \<noteq> 0 then Inr (Return (if res < 0 then - 1 else 1))
                else
                  (case (end_a, end_b) of
                     (Some a', Some b') \<Rightarrow>
                       if deref a' = 0 \<or> deref b' = 0 then Inr (Break a' b')
                       else Inr (natcmp_number (isdigit (deref a')) (isdigit (deref b')) a' b')
                   | _ \<Rightarrow> Inl NullDeref))
         else Inr (natcmp_number isdigit_a isdigit_b a b))"

text \<open>Lines 224 to 232: the result once the loop has ended.\<close>

definition natcmp_tail :: "cstring \<Rightarrow> cstring \<Rightarrow> int" where
  "natcmp_tail a b = (if deref b \<noteq> 0 then - 1 else if deref a \<noteq> 0 then 1 else 0)"

text \<open>
  The loop. With a strategy that does not advance the cursors it never ends, so the result
  is an option: \<open>None\<close> stands for a call that does not return.
\<close>

partial_function (option) natcmp_loop ::
  "natcmp_nondigit_cmp_func_t \<Rightarrow> cstring \<Rightarrow> cstring \<Rightarrow> (error + int) option" where
  "natcmp_loop compare a b =
     (if deref a \<noteq> 0 \<and> deref b \<noteq> 0 then
        (case natcmp_body compare a b of
           Inl e \<Rightarrow> Some (Inl e)
         | Inr (Return r) \<Rightarrow> Some (Inr r)
         | Inr (Break a' b') \<Rightarrow> Some (Inr (natcmp_tail a' b'))
         | Inr (Continue a' b') \<Rightarrow> natcmp_loop compare a' b')
      else Some (Inr (natcmp_tail a b)))"

text \<open>The entry point; a \<^verbatim>\<open>NULL\<close> strategy is \<open>None\<close>.\<close>

definition natcmp :: "cstring \<Rightarrow> cstring \<Rightarrow> natcmp_nondigit_cmp_func_t option \<Rightarrow> (error + int) option" where
  "natcmp a b compare =
     natcmp_loop (case compare of None \<Rightarrow> natcmp_nondigit_cmp_ascii | Some f \<Rightarrow> f) a b"

subsection \<open>Iterations of the loop\<close>

text \<open>
  The same loop with a bound on the number of times its body is evaluated: \<open>None\<close> when
  \<open>n\<close> evaluations of the body do not finish the call.
\<close>

fun natcmp_iter ::
  "nat \<Rightarrow> natcmp_nondigit_cmp_func_t \<Rightarrow> cstring \<Rightarrow> cstring \<Rightarrow> (error + int) option" where
  "natcmp_iter n compare a b =
     (if deref a \<noteq> 0 \<and> deref b \<noteq> 0 then
        (case n of
           0 \<Rightarrow> None
         | Suc m \<Rightarrow>
             (case natcmp_body compare a b of
                Inl e \<Rightarrow> Some (Inl e)
              | Inr (Return r) \<Rightarrow> Some (Inr r)
              | Inr (Break a' b') \<Rightarrow> Some (Inr (natcmp_tail a' b'))
              | Inr (Continue a' b') \<Rightarrow> natcmp_iter m compare a' b'))
      else Some (Inr (natcmp_tail a b)))"

declare natcmp_iter.simps [simp del]

subsection \<open>The vocabulary of the specification\<close>

text \<open>
  A non-digit byte, the non-digit run and the digit run at the front of a string, and the
  significant digits of a digit run: the run from its first non-zero digit on, or its last
  digit when the run is all zeros.
\<close>

definition nondigit :: "byte \<Rightarrow> bool" where
  "nondigit c = (c \<noteq> 0 \<and> \<not> isdigit c)"

definition nondigit_run :: "cstring \<Rightarrow> byte list" where
  "nondigit_run s = takeWhile nondigit s"

definition digit_run :: "cstring \<Rightarrow> byte list" where
  "digit_run s = takeWhile isdigit s"

definition significant :: "byte list \<Rightarrow> byte list" where
  "significant r =
     (let r' = dropWhile (\<lambda>c. c = 48) r
      in if r' = [] then (if r = [] then [] else [last r]) else r')"

text \<open>The sign that the first position where two byte sequences differ gives.\<close>

fun first_diff_sign :: "byte list \<Rightarrow> byte list \<Rightarrow> int" where
  "first_diff_sign (x # xs) (y # ys) =
     (if x < y then - 1 else if y < x then 1 else first_diff_sign xs ys)"
| "first_diff_sign xs ys = 0"

text \<open>The order that the comparator with the default strategy induces.\<close>

definition natcmp_le :: "cstring \<Rightarrow> cstring \<Rightarrow> bool" where
  "natcmp_le x y = (case natcmp x y None of Some (Inr r) \<Rightarrow> r \<le> 0 | _ \<Rightarrow> False)"

text \<open>
  A sort key for the default strategy: a string is cut into one token for each digit run
  (its number of significant digits, the significant digits and the length of the run)
  and one token for each other byte (the byte after case folding). Tokens are ordered
  lexicographically, a digit run before any other byte.
\<close>

type_synonym token = "nat \<times> nat \<times> byte list \<times> nat"

definition num_token :: "cstring \<Rightarrow> token" where
  "num_token s =
     (0, length (significant (digit_run s)), significant (digit_run s), length (digit_run s))"

definition chr_token :: "byte \<Rightarrow> token" where
  "chr_token c = (1, 0, [tolower c], 0)"

function key :: "cstring \<Rightarrow> token list" where
  "key s =
     (if deref s = 0 then []
      else if isdigit (deref s) then num_token s # key (dropWhile isdigit s)
      else chr_token (deref s) # key (tl s))"
  by pat_completeness auto
termination
proof (relation "measure length")
  fix s :: cstring
  assume "deref s \<noteq> 0" "isdigit (deref s)"
  then obtain c r where "s = c # r" "isdigit c"
    by (cases s) (auto simp: deref_def)
  then show "(dropWhile isdigit s, s) \<in> measure length"
    by (simp add: length_dropWhile_le le_imp_less_Suc)
next
  fix s :: cstring
  assume "deref s \<noteq> 0"
  then show "(tl s, s) \<in> measure length"
    by (cases s) (auto simp: deref_def)
qed simp

declare key.simps [simp del]

definition three_way :: "'a::linorder \<Rightarrow> 'a \<Rightarrow> int" where
  "three_way x y = (if x < y then - 1 else if x = y then 0 else 1)"

text \<open>The bytes a token of the sort key stands for, after case folding.\<close>

definition untoken :: "token \<Rightarrow> byte list" where
  "untoken t =
     (case t of (tag, n, sig, run_length) \<Rightarrow>
        if tag = 0 then replicate (run_length - n) 48 @ sig else sig)"

text \<open>
  A strategy with every result replaced by its sign, and the strategies that move forward:
  called on two cursors that are on non-digit bytes, a result of 0 comes with both output
  cells written, to positions in the rest of the two strings, at least one of them further
  on.
\<close>

definition sign_strategy :: "natcmp_nondigit_cmp_func_t \<Rightarrow> natcmp_nondigit_cmp_func_t" where
  "sign_strategy compare a b end_a end_b =
     (case compare a b end_a end_b of (res, ends) \<Rightarrow> (sgn res, ends))"

definition advances :: "natcmp_nondigit_cmp_func_t \<Rightarrow> bool" where
  "advances compare =
     (\<forall>a b. nondigit (deref a) \<and> nondigit (deref b) \<and> fst (compare a b None None) = 0 \<longrightarrow>
        (\<exists>a' b'. snd (compare a b None None) = (Some a', Some b') \<and>
           suffix a' a \<and> suffix b' b \<and> length a' + length b' < length a + length b))"

text \<open>A strategy with every result multiplied by a constant.\<close>

definition scale_strategy :: "int \<Rightarrow> natcmp_nondigit_cmp_func_t \<Rightarrow> natcmp_nondigit_cmp_func_t" where
  "scale_strategy k compare a b end_a end_b =
     (case compare a b end_a end_b of (res, ends) \<Rightarrow> (k * res, ends))"

text \<open>Two strategies for the examples: one that never moves, one that writes nothing.\<close>

definition stuck_strategy :: natcmp_nondigit_cmp_func_t where
  "stuck_strategy a b end_a end_b = (0, Some a, Some b)"

definition silent_strategy :: natcmp_nondigit_cmp_func_t where
  "silent_strategy a b end_a end_b = (0, end_a, end_b)"

text \<open>
  The callback of the test program (\<^verbatim>\<open>strcmp_cb\<close> in \<^verbatim>\<open>test/test_natcmp.c\<close>): it walks
  both strings while the bytes are equal non-digit bytes, always writes both output cells,
  and reports 0 as soon as one side is on a digit.
\<close>

fun strcmp_cb_scan :: "cstring \<Rightarrow> cstring \<Rightarrow> cstring \<times> cstring" where
  "strcmp_cb_scan (c # p) (d # q) =
     (if c \<noteq> 0 \<and> d \<noteq> 0 \<and> \<not> isdigit c \<and> \<not> isdigit d \<and> c = d
      then strcmp_cb_scan p q else (c # p, d # q))"
| "strcmp_cb_scan p q = (p, q)"

definition strcmp_cb :: natcmp_nondigit_cmp_func_t where
  "strcmp_cb a b end_a end_b =
     (case strcmp_cb_scan a b of
        (p, q) \<Rightarrow>
          if isdigit (deref p) \<or> isdigit (deref q) then (0, Some p, Some q)
          else (if deref p = deref q then 0 else if deref p < deref q then - 1 else 1,
                Some p, Some q))"

section \<open>Auxiliary facts\<close>

subsection \<open>Bytes\<close>

lemma isdigit_nonzero: "isdigit c \<Longrightarrow> c \<noteq> 0"
  by (auto simp: isdigit_def)

lemma not_isdigit_0: "\<not> isdigit 0"
  by (simp add: isdigit_def)

lemma isdigit_48: "isdigit 48"
  by (simp add: isdigit_def)

lemma tolower_eq_0: "(tolower c = 0) = (c = 0)"
proof -
  have "c + 32 \<noteq> 0" if "c \<le> 90"
  proof -
    have "unat c \<le> 90" using that by (simp add: word_le_nat_alt)
    then have "unat (c + 32) = unat c + 32"
      by (simp add: unat_word_ariths)
    then show ?thesis by (auto simp: word_unat_eq_iff)
  qed
  then show ?thesis by (auto simp: tolower_def)
qed

lemma isdigit_tolower: "isdigit (tolower c) = isdigit c"
  unfolding tolower_def isdigit_def by (auto; unat_arith)

lemma nondigit_tolower: "nondigit (tolower c) = nondigit c"
  by (simp add: nondigit_def tolower_eq_0 isdigit_tolower)

lemma sgn_uint_diff:
  "sgn (uint (x::byte) - uint y) = (if x < y then - 1 else if y < x then 1 else 0)"
  by (auto simp: word_less_def sgn_if word_uint_eq_iff)

lemma deref_nonzeroE:
  assumes "deref s \<noteq> 0"
  obtains c r where "s = c # r" "c \<noteq> 0"
  using assms by (cases s) (auto simp: deref_def)

subsection \<open>The scanning loops\<close>

lemma skip_nondigits_dropWhile: "skip_nondigits s = dropWhile nondigit s"
  by (induction s) (auto simp: nondigit_def)

lemma natcmp_skip_digits_dropWhile: "natcmp_skip_digits s = dropWhile isdigit s"
  by (induction s) (auto simp: isdigit_nonzero)

lemma length_run: "length s - length (dropWhile P s) = length (takeWhile P s)"
proof -
  have "length s = length (takeWhile P s) + length (dropWhile P s)"
    by (metis length_append takeWhile_dropWhile_id)
  then show ?thesis by simp
qed

lemma skip_leading_zeros_digits:
  "dropWhile isdigit (natcmp_skip_leading_zeros s) = dropWhile isdigit s"
  by (induction s rule: natcmp_skip_leading_zeros.induct) (auto simp: isdigit_48)

lemma skip_leading_zeros_significant:
  "takeWhile isdigit (natcmp_skip_leading_zeros s) = significant (takeWhile isdigit s)"
proof (induction s rule: natcmp_skip_leading_zeros.induct)
  case (1 c d s)
  show ?case
  proof (cases "c = 48 \<and> d \<noteq> 0 \<and> isdigit d")
    case True
    then have "takeWhile isdigit (natcmp_skip_leading_zeros (c # d # s)) =
        significant (takeWhile isdigit (d # s))"
      using 1 by simp
    also have "\<dots> = significant (takeWhile isdigit (c # d # s))"
      using True by (auto simp: significant_def isdigit_48 Let_def)
    finally show ?thesis .
  next
    case False
    then show ?thesis
      by (auto simp: significant_def Let_def not_isdigit_0)
  qed
qed (auto simp: significant_def Let_def)

lemma length_digits_tail:
  "length (natcmp_skip_leading_zeros s) - length (dropWhile isdigit (natcmp_skip_leading_zeros s))
     = length (significant (digit_run s))"
  by (simp add: length_run skip_leading_zeros_significant digit_run_def)

subsection \<open>The library comparisons\<close>

lemma strncmp_sign:
  "n \<le> length xs \<Longrightarrow> n \<le> length ys \<Longrightarrow> 0 \<notin> set (take n xs) \<Longrightarrow>
   sgn (strncmp xs ys n) = first_diff_sign (take n xs) (take n ys)"
proof (induction n arbitrary: xs ys)
  case 0
  then show ?case by simp
next
  case (Suc n)
  then obtain x xs' y ys' where xs: "xs = x # xs'" and ys: "ys = y # ys'"
    by (cases xs; cases ys) auto
  have ih: "sgn (strncmp xs' ys' n) = first_diff_sign (take n xs') (take n ys')"
    using Suc.prems xs ys by (intro Suc.IH) auto
  have x0: "x \<noteq> 0" using Suc.prems xs by auto
  show ?case
  proof (cases "x = y")
    case True
    then show ?thesis using ih x0 by (simp add: xs ys deref_def)
  next
    case False
    then show ?thesis using sgn_uint_diff [of x y] by (auto simp add: xs ys deref_def Let_def)
  qed
qed

lemma strncasecmp_sign:
  "n \<le> length xs \<Longrightarrow> n \<le> length ys \<Longrightarrow> 0 \<notin> set (take n xs) \<Longrightarrow>
   sgn (strncasecmp xs ys n) =
     first_diff_sign (map tolower (take n xs)) (map tolower (take n ys))"
proof (induction n arbitrary: xs ys)
  case 0
  then show ?case by simp
next
  case (Suc n)
  then obtain x xs' y ys' where xs: "xs = x # xs'" and ys: "ys = y # ys'"
    by (cases xs; cases ys) auto
  have ih: "sgn (strncasecmp xs' ys' n) =
      first_diff_sign (map tolower (take n xs')) (map tolower (take n ys'))"
    using Suc.prems xs ys by (intro Suc.IH) auto
  have x0: "x \<noteq> 0" using Suc.prems xs by auto
  show ?case
  proof (cases "tolower x = tolower y")
    case True
    then show ?thesis using ih x0 by (simp add: xs ys deref_def)
  next
    case False
    then show ?thesis
      using sgn_uint_diff [of "tolower x" "tolower y"] by (auto simp add: xs ys deref_def Let_def)
  qed
qed

lemma first_diff_sign_eq_0:
  "length xs = length ys \<Longrightarrow> (first_diff_sign xs ys = 0) = (xs = ys)"
  by (induction xs ys rule: list_induct2) auto

lemma first_diff_sign_values: "first_diff_sign xs ys \<in> {- 1, 0, 1}"
  by (induction xs ys rule: first_diff_sign.induct) auto

lemma first_diff_sign_three_way:
  "length xs = length ys \<Longrightarrow> first_diff_sign xs ys = three_way xs ys"
  by (induction xs ys rule: list_induct2) (auto simp: three_way_def)

lemma take_length_takeWhile: "take (length (takeWhile P xs)) xs = takeWhile P xs"
  by (metis takeWhile_eq_take)

lemma take_run:
  "n \<le> length (takeWhile P xs) \<Longrightarrow> take n xs = take n (takeWhile P xs)"
proof -
  assume n: "n \<le> length (takeWhile P xs)"
  have "take n xs = take n (takeWhile P xs @ dropWhile P xs)" by simp
  also have "\<dots> = take n (takeWhile P xs)" using n by (simp del: takeWhile_dropWhile_id)
  finally show ?thesis .
qed

lemma digits_nonzero: "0 \<notin> set (takeWhile isdigit s)"
  by (auto dest!: set_takeWhileD simp: not_isdigit_0)

lemma nondigits_nonzero: "0 \<notin> set (takeWhile nondigit s)"
  by (auto dest!: set_takeWhileD simp: nondigit_def)

lemma strncmp_digits:
  assumes "length (significant (digit_run a)) = length (significant (digit_run b))"
  shows "sgn (strncmp (natcmp_skip_leading_zeros a) (natcmp_skip_leading_zeros b)
             (length (significant (digit_run a))))
         = first_diff_sign (significant (digit_run a)) (significant (digit_run b))"
proof -
  let ?da = "natcmp_skip_leading_zeros a" and ?db = "natcmp_skip_leading_zeros b"
  let ?n = "length (significant (digit_run a))"
  have sa: "significant (digit_run a) = takeWhile isdigit ?da"
    and sb: "significant (digit_run b) = takeWhile isdigit ?db"
    by (simp_all add: skip_leading_zeros_significant digit_run_def)
  have ta: "take ?n ?da = significant (digit_run a)"
    unfolding sa by (rule take_length_takeWhile)
  have tb: "take ?n ?db = significant (digit_run b)"
    unfolding assms unfolding sb by (rule take_length_takeWhile)
  have "sgn (strncmp ?da ?db ?n) = first_diff_sign (take ?n ?da) (take ?n ?db)"
  proof (rule strncmp_sign)
    show "?n \<le> length ?da" unfolding sa by (rule length_takeWhile_le)
    show "?n \<le> length ?db" unfolding assms unfolding sb by (rule length_takeWhile_le)
    show "0 \<notin> set (take ?n ?da)" unfolding ta unfolding sa by (rule digits_nonzero)
  qed
  then show ?thesis by (simp only: ta tb)
qed

lemma natcmp_number_unfold:
  "natcmp_number d d a b =
     (if length (significant (digit_run a)) \<noteq> length (significant (digit_run b))
      then Return (if length (significant (digit_run a)) < length (significant (digit_run b))
                   then - 1 else 1)
      else if strncmp (natcmp_skip_leading_zeros a) (natcmp_skip_leading_zeros b)
                (length (significant (digit_run a))) \<noteq> 0
      then Return (if strncmp (natcmp_skip_leading_zeros a) (natcmp_skip_leading_zeros b)
                (length (significant (digit_run a))) < 0 then - 1 else 1)
      else if length (digit_run a) \<noteq> length (digit_run b)
      then Return (if length (digit_run a) < length (digit_run b) then - 1 else 1)
      else Continue (dropWhile isdigit a) (dropWhile isdigit b))"
proof -
  have t: "\<And>s. natcmp_skip_digits (natcmp_skip_leading_zeros s) = dropWhile isdigit s"
    by (simp add: natcmp_skip_digits_dropWhile skip_leading_zeros_digits)
  have l1: "\<And>s. length (natcmp_skip_leading_zeros s) - length (dropWhile isdigit s)
      = length (significant (digit_run s))"
    using length_digits_tail by (simp add: skip_leading_zeros_digits)
  have l2: "\<And>s. length s - length (dropWhile isdigit s) = length (digit_run s)"
    by (simp add: length_run digit_run_def)
  show ?thesis
    by (simp add: natcmp_number_def Let_def t l1 l2)
qed

lemma natcmp_number_same:
  "natcmp_number d d a b =
     (let sa = significant (digit_run a); sb = significant (digit_run b)
      in if length sa \<noteq> length sb then Return (if length sa < length sb then - 1 else 1)
         else if first_diff_sign sa sb \<noteq> 0 then Return (first_diff_sign sa sb)
         else if length (digit_run a) \<noteq> length (digit_run b)
           then Return (if length (digit_run a) < length (digit_run b) then - 1 else 1)
         else Continue (dropWhile isdigit a) (dropWhile isdigit b))"
proof (cases "length (significant (digit_run a)) = length (significant (digit_run b))")
  case False
  then show ?thesis
    unfolding natcmp_number_unfold Let_def by simp
next
  case True
  define c where "c = strncmp (natcmp_skip_leading_zeros a) (natcmp_skip_leading_zeros b)
             (length (significant (digit_run a)))"
  define f where "f = first_diff_sign (significant (digit_run a)) (significant (digit_run b))"
  have "sgn c = f"
    unfolding c_def f_def by (rule strncmp_digits [OF True])
  then have "(if c \<noteq> 0 then Return (if c < 0 then - 1 else 1) else x) =
      (if f \<noteq> 0 then Return f else x)" for x
    by (auto simp: sgn_if split: if_splits)
  then show ?thesis
    unfolding natcmp_number_unfold Let_def c_def [symmetric] f_def [symmetric]
    by simp
qed

lemma natcmp_number_mismatch:
  "da \<noteq> db \<Longrightarrow> natcmp_number da db a b = Return (if da then - 1 else 1)"
  by (simp add: natcmp_number_def)

lemma ascii_strategy:
  "natcmp_nondigit_cmp_ascii a b end_a end_b =
     (let ra = nondigit_run a; rb = nondigit_run b;
          n = min (length ra) (length rb);
          d = first_diff_sign (map tolower (take n ra)) (map tolower (take n rb))
      in if d \<noteq> 0 then (d, end_a, end_b)
         else if length ra \<noteq> length rb
           then (if length ra < length rb then - 1 else 1, end_a, end_b)
         else (0, Some (dropWhile nondigit a), Some (dropWhile nondigit b)))"
proof -
  define ra rb where "ra = nondigit_run a" and "rb = nondigit_run b"
  define n where "n = min (length ra) (length rb)"
  define c where "c = strncasecmp a b n"
  define d where "d = first_diff_sign (map tolower (take n ra)) (map tolower (take n rb))"
  have la: "length a - length (dropWhile nondigit a) = length ra"
    and lb: "length b - length (dropWhile nondigit b) = length rb"
    by (simp_all add: ra_def rb_def nondigit_run_def length_run)
  have m: "(if length ra < length rb then length ra else length rb) = n"
    by (simp add: n_def min_def)
  have ta: "take n a = take n ra" and tb: "take n b = take n rb"
    unfolding ra_def rb_def nondigit_run_def by (rule take_run, simp add: n_def ra_def rb_def nondigit_run_def)+
  have "sgn c = first_diff_sign (map tolower (take n a)) (map tolower (take n b))"
    unfolding c_def
  proof (rule strncasecmp_sign)
    have "length ra \<le> length a" "length rb \<le> length b"
      by (simp_all add: ra_def rb_def nondigit_run_def length_takeWhile_le)
    then show "n \<le> length a" "n \<le> length b" by (auto simp: n_def)
    have "set (take n ra) \<subseteq> set ra" by (rule set_take_subset)
    then show "0 \<notin> set (take n a)"
      unfolding ta using nondigits_nonzero [of a] by (auto simp: ra_def rb_def nondigit_run_def)
  qed
  then have cd: "sgn c = d" by (simp only: ta tb d_def)
  have lhs: "natcmp_nondigit_cmp_ascii a b end_a end_b =
      (if c \<noteq> 0 then (if c < 0 then - 1 else 1, end_a, end_b)
       else if length ra \<noteq> length rb then (if length ra < length rb then - 1 else 1, end_a, end_b)
       else (0, Some (dropWhile nondigit a), Some (dropWhile nondigit b)))"
    unfolding natcmp_nondigit_cmp_ascii_def Let_def skip_nondigits_dropWhile la lb m c_def ..
  have rhs: "(let ra = nondigit_run a; rb = nondigit_run b;
          n = min (length ra) (length rb);
          d = first_diff_sign (map tolower (take n ra)) (map tolower (take n rb))
      in if d \<noteq> 0 then (d, end_a, end_b)
         else if length ra \<noteq> length rb
           then (if length ra < length rb then - 1 else 1, end_a, end_b)
         else (0, Some (dropWhile nondigit a), Some (dropWhile nondigit b))) =
      (if d \<noteq> 0 then (d, end_a, end_b)
       else if length ra \<noteq> length rb then (if length ra < length rb then - 1 else 1, end_a, end_b)
       else (0, Some (dropWhile nondigit a), Some (dropWhile nondigit b)))"
    unfolding Let_def d_def n_def ra_def rb_def ..
  show ?thesis
    unfolding lhs rhs using cd by (auto simp: sgn_if split: if_splits)
qed

subsection \<open>Unfolding the loop\<close>

lemma loop_end:
  "deref a = 0 \<or> deref b = 0 \<Longrightarrow> natcmp_loop compare a b = Some (Inr (natcmp_tail a b))"
  by (subst natcmp_loop.simps) auto

lemma loop_step:
  "deref a \<noteq> 0 \<Longrightarrow> deref b \<noteq> 0 \<Longrightarrow>
   natcmp_loop compare a b =
     (case natcmp_body compare a b of
        Inl e \<Rightarrow> Some (Inl e)
      | Inr (Return r) \<Rightarrow> Some (Inr r)
      | Inr (Break a' b') \<Rightarrow> Some (Inr (natcmp_tail a' b'))
      | Inr (Continue a' b') \<Rightarrow> natcmp_loop compare a' b')"
  by (subst natcmp_loop.simps) simp

lemma body_number:
  "isdigit (deref a) \<or> isdigit (deref b) \<Longrightarrow>
   natcmp_body compare a b = Inr (natcmp_number (isdigit (deref a)) (isdigit (deref b)) a b)"
  by (auto simp: natcmp_body_def Let_def)

lemma body_strategy_zero:
  assumes "\<not> isdigit (deref a)" "\<not> isdigit (deref b)"
    and "compare a b None None = (0, Some a', Some b')"
  shows "natcmp_body compare a b =
     (if deref a' = 0 \<or> deref b' = 0 then Inr (Break a' b')
      else Inr (natcmp_number (isdigit (deref a')) (isdigit (deref b')) a' b'))"
  using assms by (simp add: natcmp_body_def Let_def)

lemma body_strategy_nonzero:
  assumes "\<not> isdigit (deref a)" "\<not> isdigit (deref b)"
    and "compare a b None None = (r, e)" "r \<noteq> 0"
  shows "natcmp_body compare a b = Inr (Return (if r < 0 then - 1 else 1))"
  using assms by (cases e) (simp add: natcmp_body_def Let_def)

lemma loop_after_strategy:
  assumes nz: "deref a \<noteq> 0" "deref b \<noteq> 0"
    and nd: "\<not> isdigit (deref a)" "\<not> isdigit (deref b)"
    and res: "compare a b None None = (0, Some a', Some b')"
    and stop: "deref a' = 0 \<or> deref b' = 0 \<or> isdigit (deref a') \<or> isdigit (deref b')"
  shows "natcmp_loop compare a b = natcmp_loop compare a' b'"
proof -
  have body: "natcmp_body compare a b =
     (if deref a' = 0 \<or> deref b' = 0 then Inr (Break a' b')
      else Inr (natcmp_number (isdigit (deref a')) (isdigit (deref b')) a' b'))"
    using nd res by (rule body_strategy_zero)
  show ?thesis
  proof (cases "deref a' = 0 \<or> deref b' = 0")
    case True
    then show ?thesis
      by (simp add: loop_step [OF nz] body loop_end)
  next
    case False
    then have d: "isdigit (deref a') \<or> isdigit (deref b')" using stop by blast
    from False show ?thesis
      by (simp add: loop_step [OF nz] body loop_step [of a' b'] body_number [OF d])
  qed
qed

subsection \<open>The sort key\<close>

lemma key_end: "deref s = 0 \<Longrightarrow> key s = []"
  by (subst key.simps) simp

lemma key_digit: "isdigit (deref s) \<Longrightarrow> key s = num_token s # key (dropWhile isdigit s)"
  by (subst key.simps) (auto dest: isdigit_nonzero)

lemma key_nondigit: "nondigit (deref s) \<Longrightarrow> key s = chr_token (deref s) # key (tl s)"
  by (subst key.simps) (auto simp: nondigit_def)

lemma key_run: "key s = map chr_token (takeWhile nondigit s) @ key (dropWhile nondigit s)"
proof (induction s)
  case Nil
  show ?case by simp
next
  case (Cons c s)
  show ?case
  proof (cases "nondigit c")
    case True
    then show ?thesis using Cons key_nondigit [of "c # s"] by (simp add: deref_def)
  next
    case False
    then show ?thesis by simp
  qed
qed

lemma deref_dropWhile: "dropWhile P s = [] \<or> \<not> P (deref (dropWhile P s))"
  by (induction s) (auto simp: deref_def)

lemma after_nondigits:
  "deref (dropWhile nondigit s) = 0 \<or> isdigit (deref (dropWhile nondigit s))"
proof -
  from deref_dropWhile [of nondigit s] show ?thesis
  proof
    assume e: "dropWhile nondigit s = []"
    show ?thesis unfolding e by (simp add: deref_def)
  next
    assume "\<not> nondigit (deref (dropWhile nondigit s))"
    then show ?thesis by (simp add: nondigit_def)
  qed
qed

lemma after_digits: "\<not> isdigit (deref (dropWhile isdigit s))"
proof -
  from deref_dropWhile [of isdigit s] show ?thesis
  proof
    assume e: "dropWhile isdigit s = []"
    show ?thesis unfolding e by (simp add: deref_def not_isdigit_0)
  qed
qed

lemma key_after_nondigits:
  "key (dropWhile nondigit s) = [] \<or>
   (\<exists>k. key (dropWhile nondigit s) = num_token (dropWhile nondigit s) # k)"
  using after_nondigits [of s] by (auto simp: key_end key_digit)

subsection \<open>Three-way comparison of keys\<close>

lemma three_way_refl: "three_way x x = 0"
  by (simp add: three_way_def)

lemma three_way_Nil: "three_way [] (y # ys) = - 1" "three_way (x # xs) [] = 1"
  by (simp_all add: three_way_def)

lemma three_way_Cons:
  "three_way (x # xs) (y # ys) = (if x = y then three_way xs ys else three_way x y)"
  by (auto simp: three_way_def)

lemma three_way_append:
  "length p = length q \<Longrightarrow>
   three_way (p @ xs) (q @ ys) = (if p = q then three_way xs ys else three_way p q)"
  by (induction p q rule: list_induct2) (auto simp: three_way_Cons)

lemma three_way_chr_token:
  "three_way (chr_token x) (chr_token y) = three_way (tolower x) (tolower y)"
  by (auto simp: three_way_def chr_token_def)

lemma chr_token_eq: "(chr_token x = chr_token y) = (tolower x = tolower y)"
  by (simp add: chr_token_def)

lemma three_way_map_chr_token:
  "length xs = length ys \<Longrightarrow>
   three_way (map chr_token xs) (map chr_token ys) =
   three_way (map tolower xs) (map tolower ys)"
  by (induction xs ys rule: list_induct2)
     (auto simp: three_way_Cons three_way_chr_token chr_token_eq three_way_refl)

lemma map_chr_token_eq:
  "(map chr_token xs = map chr_token ys) = (map tolower xs = map tolower ys)"
proof (induction xs arbitrary: ys)
  case Nil
  show ?case by simp
next
  case (Cons x xs)
  show ?case by (cases ys) (simp_all add: Cons chr_token_eq)
qed

lemma num_less_chr: "three_way (num_token s) (chr_token c) = - 1"
  "three_way (chr_token c) (num_token s) = 1"
  by (auto simp: three_way_def num_token_def chr_token_def)

lemma natcmp_number_tokens:
  "natcmp_number d d a b =
     (if num_token a = num_token b
      then Continue (dropWhile isdigit a) (dropWhile isdigit b)
      else Return (three_way (num_token a) (num_token b)))"
proof -
  define sa sb where "sa = significant (digit_run a)" and "sb = significant (digit_run b)"
  have f: "first_diff_sign sa sb = three_way sa sb" if "length sa = length sb"
    using that by (rule first_diff_sign_three_way)
  show ?thesis
    unfolding natcmp_number_same Let_def num_token_def sa_def [symmetric] sb_def [symmetric]
    using f by (auto simp: three_way_def)
qed

lemma length_dropWhile_less:
  "s \<noteq> [] \<Longrightarrow> P (deref s) \<Longrightarrow> length (dropWhile P s) < length s"
  by (cases s) (auto simp: deref_def length_dropWhile_le le_imp_less_Suc)

lemma num_ne_chr: "num_token s \<noteq> chr_token c" "chr_token c \<noteq> num_token s"
  by (auto simp: num_token_def chr_token_def)

text \<open>The default strategy on two non-digit runs, in terms of the keys.\<close>

lemma ascii_strategy_key:
  assumes "nondigit (deref a)" "nondigit (deref b)"
  shows "natcmp_nondigit_cmp_ascii a b None None =
     (if length (nondigit_run a) = length (nondigit_run b) \<and>
         map tolower (nondigit_run a) = map tolower (nondigit_run b)
      then (0, Some (dropWhile nondigit a), Some (dropWhile nondigit b))
      else (three_way (key a) (key b), None, None))"
    and "three_way (key a) (key b) =
     (if length (nondigit_run a) = length (nondigit_run b) \<and>
         map tolower (nondigit_run a) = map tolower (nondigit_run b)
      then three_way (key (dropWhile nondigit a)) (key (dropWhile nondigit b))
      else if three_way (key a) (key b) < 0 then - 1 else 1)"
proof -
  define ra rb where "ra = nondigit_run a" and "rb = nondigit_run b"
  define pa pb where "pa = dropWhile nondigit a" and "pb = dropWhile nondigit b"
  define n where "n = min (length ra) (length rb)"
  define fa fb where "fa = map tolower (take n ra)" and "fb = map tolower (take n rb)"
  define d where "d = first_diff_sign fa fb"
  define ta tb where "ta = map chr_token (drop n ra) @ key pa"
    and "tb = map chr_token (drop n rb) @ key pb"
  have len: "length fa = length fb"
    by (simp add: fa_def fb_def n_def)
  have d3: "d = three_way fa fb"
    unfolding d_def using len by (rule first_diff_sign_three_way)
  have "key a = map chr_token (takeWhile nondigit a) @ key pa"
    unfolding pa_def by (rule key_run)
  also have "takeWhile nondigit a = take n ra @ drop n ra"
    by (simp add: ra_def nondigit_run_def)
  finally have ka: "key a = map chr_token (take n ra) @ ta"
    by (simp only: ta_def map_append append_assoc)
  have "key b = map chr_token (takeWhile nondigit b) @ key pb"
    unfolding pb_def by (rule key_run)
  also have "takeWhile nondigit b = take n rb @ drop n rb"
    by (simp add: rb_def nondigit_run_def)
  finally have kb: "key b = map chr_token (take n rb) @ tb"
    by (simp only: tb_def map_append append_assoc)
  have ln: "length (map chr_token (take n ra)) = length (map chr_token (take n rb))"
    by (simp add: n_def)
  have "three_way (key a) (key b) =
      (if map chr_token (take n ra) = map chr_token (take n rb) then three_way ta tb
       else three_way (map chr_token (take n ra)) (map chr_token (take n rb)))"
    unfolding ka kb using ln by (rule three_way_append)
  also have "three_way (map chr_token (take n ra)) (map chr_token (take n rb)) = d"
    unfolding d3 fa_def fb_def by (rule three_way_map_chr_token) (simp add: n_def)
  also have "(map chr_token (take n ra) = map chr_token (take n rb)) = (fa = fb)"
    unfolding fa_def fb_def by (rule map_chr_token_eq)
  finally have tw: "three_way (key a) (key b) = (if fa = fb then three_way ta tb else d)" .
  have strat: "natcmp_nondigit_cmp_ascii a b None None =
      (if d \<noteq> 0 then (d, None, None)
       else if length ra \<noteq> length rb then (if length ra < length rb then - 1 else 1, None, None)
       else (0, Some pa, Some pb))"
    unfolding ascii_strategy Let_def d_def fa_def fb_def n_def ra_def rb_def pa_def pb_def ..
  have d0: "(d = 0) = (fa = fb)"
    unfolding d_def using len by (rule first_diff_sign_eq_0)
  have dvals: "d = - 1 \<or> d = 0 \<or> d = 1"
    using first_diff_sign_values [of fa fb] by (simp add: d_def)
  have pa_key: "key pa = [] \<or> (\<exists>k. key pa = num_token pa # k)"
    and pb_key: "key pb = [] \<or> (\<exists>k. key pb = num_token pb # k)"
    unfolding pa_def pb_def by (rule key_after_nondigits)+
  have short_a: "three_way ta tb = - 1" if "length ra < length rb"
  proof -
    have "drop n ra = []" using that by (simp add: n_def)
    then have ta': "ta = key pa" by (simp add: ta_def)
    have "drop n rb \<noteq> []" using that by (simp add: n_def)
    then obtain c r where "drop n rb = c # r" by (cases "drop n rb") auto
    then have tb': "tb = chr_token c # (map chr_token r @ key pb)" by (simp add: tb_def)
    from pa_key show ?thesis
    proof
      assume "key pa = []" then show ?thesis by (simp add: ta' tb' three_way_Nil)
    next
      assume "\<exists>k. key pa = num_token pa # k"
      then obtain k where "key pa = num_token pa # k" ..
      then show ?thesis
        by (simp add: ta' tb' three_way_Cons num_less_chr num_ne_chr)
    qed
  qed
  have short_b: "three_way ta tb = 1" if "length rb < length ra"
  proof -
    have "drop n rb = []" using that by (simp add: n_def)
    then have tb': "tb = key pb" by (simp add: tb_def)
    have "drop n ra \<noteq> []" using that by (simp add: n_def)
    then obtain c r where "drop n ra = c # r" by (cases "drop n ra") auto
    then have ta': "ta = chr_token c # (map chr_token r @ key pa)" by (simp add: ta_def)
    from pb_key show ?thesis
    proof
      assume "key pb = []" then show ?thesis by (simp add: ta' tb' three_way_Nil)
    next
      assume "\<exists>k. key pb = num_token pb # k"
      then obtain k where "key pb = num_token pb # k" ..
      then show ?thesis
        by (simp add: ta' tb' three_way_Cons num_less_chr num_ne_chr)
    qed
  qed
  have same: "three_way ta tb = three_way (key pa) (key pb)" if "length ra = length rb"
    using that by (simp add: n_def ta_def tb_def)
  have full: "fa = map tolower ra" "fb = map tolower rb" if "length ra = length rb"
    using that by (simp_all add: fa_def fb_def n_def)
  consider (diff) "d \<noteq> 0" | (lt) "d = 0" "length ra < length rb"
    | (gt) "d = 0" "length rb < length ra" | (eq) "d = 0" "length ra = length rb"
    by fastforce
  then have "natcmp_nondigit_cmp_ascii a b None None =
     (if length ra = length rb \<and> map tolower ra = map tolower rb
      then (0, Some pa, Some pb) else (three_way (key a) (key b), None, None))
    \<and> three_way (key a) (key b) =
     (if length ra = length rb \<and> map tolower ra = map tolower rb
      then three_way (key pa) (key pb)
      else if three_way (key a) (key b) < 0 then - 1 else 1)"
  proof cases
    case diff
    then have ne: "fa \<noteq> fb" using d0 by simp
    then have "\<not> (length ra = length rb \<and> map tolower ra = map tolower rb)"
      using full by auto
    then show ?thesis using diff ne dvals by (auto simp: strat tw)
  next
    case lt
    then have "fa = fb" using d0 by simp
    then show ?thesis using lt short_a by (simp add: strat tw)
  next
    case gt
    then have "fa = fb" using d0 by simp
    then show ?thesis using gt short_b by (simp add: strat tw)
  next
    case eq
    then have e: "fa = fb" using d0 by simp
    then have "map tolower ra = map tolower rb" using full [OF eq(2)] by simp
    then show ?thesis using eq e same by (simp add: strat tw)
  qed
  then show "natcmp_nondigit_cmp_ascii a b None None =
     (if length (nondigit_run a) = length (nondigit_run b) \<and>
         map tolower (nondigit_run a) = map tolower (nondigit_run b)
      then (0, Some (dropWhile nondigit a), Some (dropWhile nondigit b))
      else (three_way (key a) (key b), None, None))"
    and "three_way (key a) (key b) =
     (if length (nondigit_run a) = length (nondigit_run b) \<and>
         map tolower (nondigit_run a) = map tolower (nondigit_run b)
      then three_way (key (dropWhile nondigit a)) (key (dropWhile nondigit b))
      else if three_way (key a) (key b) < 0 then - 1 else 1)"
    unfolding ra_def rb_def pa_def pb_def by blast+
qed

lemma key_nonempty:
  assumes "deref s \<noteq> 0"
  shows "\<exists>t k. key s = t # k"
proof (cases "isdigit (deref s)")
  case True
  then show ?thesis using key_digit by blast
next
  case False
  with assms have "nondigit (deref s)" by (simp add: nondigit_def)
  then show ?thesis using key_nondigit by blast
qed

lemma loop_digits:
  assumes "isdigit (deref a)" "isdigit (deref b)"
  shows "natcmp_loop compare a b =
     (if num_token a = num_token b
      then natcmp_loop compare (dropWhile isdigit a) (dropWhile isdigit b)
      else Some (Inr (three_way (num_token a) (num_token b))))"
proof -
  have nz: "deref a \<noteq> 0" "deref b \<noteq> 0"
    using assms by (auto dest: isdigit_nonzero)
  have body: "natcmp_body compare a b = Inr (natcmp_number True True a b)"
    using assms body_number [of a b compare] by simp
  show ?thesis
    by (simp add: loop_step [OF nz] body natcmp_number_tokens)
qed

lemma loop_mismatch:
  assumes "deref a \<noteq> 0" "deref b \<noteq> 0" "isdigit (deref a) \<noteq> isdigit (deref b)"
  shows "natcmp_loop compare a b = Some (Inr (if isdigit (deref a) then - 1 else 1))"
proof -
  have "isdigit (deref a) \<or> isdigit (deref b)" using assms(3) by blast
  then have "natcmp_body compare a b =
      Inr (natcmp_number (isdigit (deref a)) (isdigit (deref b)) a b)"
    by (rule body_number)
  then show ?thesis
    using assms by (simp add: loop_step natcmp_number_mismatch)
qed

lemma loop_key:
  "natcmp_loop natcmp_nondigit_cmp_ascii a b = Some (Inr (three_way (key a) (key b)))"
proof (induction "length a + length b" arbitrary: a b rule: less_induct)
  case less
  show ?case
  proof (cases "deref a = 0 \<or> deref b = 0")
    case True
    show ?thesis
    proof (cases "deref a = 0")
      case a0: True
      show ?thesis
      proof (cases "deref b = 0")
        case True
        with a0 show ?thesis
          by (simp add: loop_end natcmp_tail_def key_end three_way_refl)
      next
        case False
        then obtain t k where "key b = t # k"
          using key_nonempty by blast
        with a0 False show ?thesis
          by (simp add: loop_end natcmp_tail_def key_end three_way_Nil)
      qed
    next
      case False
      then have b0: "deref b = 0" using True by simp
      from False obtain t k where "key a = t # k"
        using key_nonempty by blast
      with b0 False show ?thesis
        by (simp add: loop_end natcmp_tail_def key_end three_way_Nil)
    qed
  next
    case False
    then have nz: "deref a \<noteq> 0" "deref b \<noteq> 0" by auto
    then have ne: "a \<noteq> []" "b \<noteq> []" by (auto simp: deref_def)
    consider (dd) "isdigit (deref a)" "isdigit (deref b)"
      | (dn) "isdigit (deref a)" "\<not> isdigit (deref b)"
      | (nd) "\<not> isdigit (deref a)" "isdigit (deref b)"
      | (nn) "\<not> isdigit (deref a)" "\<not> isdigit (deref b)"
      by blast
    then show ?thesis
    proof cases
      case dd
      have smaller: "length (dropWhile isdigit a) + length (dropWhile isdigit b)
          < length a + length b"
        using length_dropWhile_less [OF ne(1), of isdigit] length_dropWhile_less [OF ne(2), of isdigit] dd
        by simp
      show ?thesis
        using less [OF smaller] dd
        by (simp add: loop_digits key_digit three_way_Cons)
    next
      case dn
      then have "nondigit (deref b)" using nz by (simp add: nondigit_def)
      then show ?thesis
        using dn nz
        by (simp add: loop_mismatch key_digit key_nondigit three_way_Cons num_less_chr num_ne_chr)
    next
      case nd
      then have "nondigit (deref a)" using nz by (simp add: nondigit_def)
      then show ?thesis
        using nd nz
        by (simp add: loop_mismatch key_digit key_nondigit three_way_Cons num_less_chr num_ne_chr)
    next
      case nn
      then have n: "nondigit (deref a)" "nondigit (deref b)"
        using nz by (simp_all add: nondigit_def)
      let ?E = "length (nondigit_run a) = length (nondigit_run b) \<and>
         map tolower (nondigit_run a) = map tolower (nondigit_run b)"
      let ?pa = "dropWhile nondigit a" and ?pb = "dropWhile nondigit b"
      note strat = ascii_strategy_key(1) [OF n] and tw = ascii_strategy_key(2) [OF n]
      show ?thesis
      proof (cases ?E)
        case True
        have res: "natcmp_nondigit_cmp_ascii a b None None = (0, Some ?pa, Some ?pb)"
          using strat True by simp
        have stop: "deref ?pa = 0 \<or> deref ?pb = 0 \<or> isdigit (deref ?pa) \<or> isdigit (deref ?pb)"
          using after_nondigits [of a] by blast
        have "natcmp_loop natcmp_nondigit_cmp_ascii a b =
            natcmp_loop natcmp_nondigit_cmp_ascii ?pa ?pb"
          using nz nn res stop by (rule loop_after_strategy)
        moreover have "length ?pa + length ?pb < length a + length b"
          using length_dropWhile_less [OF ne(1), of nondigit]
            length_dropWhile_less [OF ne(2), of nondigit] n by simp
        ultimately show ?thesis
          using less tw True by simp
      next
        case False
        have res: "natcmp_nondigit_cmp_ascii a b None None = (three_way (key a) (key b), None, None)"
          using strat False by simp
        have t: "three_way (key a) (key b) = (if three_way (key a) (key b) < 0 then - 1 else 1)"
          using tw False by simp
        then have r0: "three_way (key a) (key b) \<noteq> 0"
          by (metis one_neq_zero neg_equal_0_iff_equal)
        have "natcmp_body natcmp_nondigit_cmp_ascii a b =
            Inr (Return (if three_way (key a) (key b) < 0 then - 1 else 1))"
          using nn res r0 by (rule body_strategy_nonzero)
        then show ?thesis
          using t by (simp add: loop_step [OF nz])
      qed
    qed
  qed
qed

subsection \<open>The comparator as a comparison of sort keys\<close>

lemmas natcmp_eval = natcmp_def natcmp_loop.simps natcmp_body_def natcmp_number_def
  natcmp_tail_def natcmp_nondigit_cmp_ascii_def bytes_def deref_def isdigit_def tolower_def Let_def

lemma natcmp_default_key: "natcmp a b None = Some (Inr (three_way (key a) (key b)))"
  by (simp add: natcmp_def loop_key)

lemma natcmp_le_key: "natcmp_le x y = (key x \<le> key y)"
  by (auto simp: natcmp_le_def natcmp_default_key three_way_def)

lemma tolower_digit: "isdigit c \<Longrightarrow> tolower c = c"
  unfolding isdigit_def tolower_def by (auto; unat_arith)

lemma tolower_idem: "tolower (tolower c) = tolower c"
  unfolding tolower_def by (auto; unat_arith)

lemma c_str_end: "deref s = 0 \<Longrightarrow> c_str s = []"
  by (cases s) (auto simp: c_str_def deref_def)

lemma c_str_Cons: "c \<noteq> 0 \<Longrightarrow> c_str (c # s) = c # c_str s"
  by (simp add: c_str_def)

lemma c_str_digits: "c_str s = digit_run s @ c_str (dropWhile isdigit s)"
proof -
  have "c_str s = c_str (takeWhile isdigit s @ dropWhile isdigit s)" by simp
  also have "\<dots> = takeWhile isdigit s @ c_str (dropWhile isdigit s)"
    unfolding c_str_def
    by (rule takeWhile_append2) (auto dest!: set_takeWhileD simp: not_isdigit_0)
  finally show ?thesis by (simp add: digit_run_def)
qed

lemma significant_zeros:
  "replicate (length r - length (significant r)) 48 @ significant r = r"
proof (cases "dropWhile (\<lambda>c. c = 48) r = []")
  case False
  have z: "takeWhile (\<lambda>c. c = 48) r = replicate (length (takeWhile (\<lambda>c. c = 48) r)) 48"
    by (rule replicate_length_same [symmetric]) (auto dest: set_takeWhileD)
  have l: "length r - length (dropWhile (\<lambda>c. c = 48) r) = length (takeWhile (\<lambda>c. c = 48) r)"
    by (rule length_run)
  have sig: "significant r = dropWhile (\<lambda>c. c = 48) r"
    unfolding significant_def Let_def by (simp only: False if_False)
  have "replicate (length (takeWhile (\<lambda>c. c = 48) r)) 48 @ dropWhile (\<lambda>c. c = 48) r = r"
    using z by (metis takeWhile_dropWhile_id)
  then show ?thesis
    by (simp only: sig l)
next
  case True
  then have all: "\<forall>x\<in>set r. x = 48" by simp
  show ?thesis
  proof (cases "r = []")
    case True
    then show ?thesis by (simp add: significant_def)
  next
    case False
    then have l48: "last r = 48" using all by (meson last_in_set)
    have sig: "significant r = [48]"
      unfolding significant_def Let_def by (simp only: True False if_True if_False l48 simp_thms)
    have rr: "replicate (length r) 48 = r"
      by (rule replicate_length_same) (use all in auto)
    have e: "replicate (length r - length [48::byte]) (48::byte) @ [48] = replicate (length r) 48"
      using False by (cases r) (simp_all add: replicate_append_same)
    show ?thesis
      unfolding sig e by (rule rr)
  qed
qed

lemma untoken_num: "untoken (num_token s) = digit_run s"
  by (simp add: untoken_def num_token_def significant_zeros)

lemma untoken_chr: "untoken (chr_token c) = [tolower c]"
  by (simp add: untoken_def chr_token_def)

lemma map_tolower_digits: "map tolower (digit_run s) = digit_run s"
  by (rule map_idI) (auto simp: digit_run_def dest!: set_takeWhileD intro: tolower_digit)

lemma unkey: "concat (map untoken (key s)) = map tolower (c_str s)"
proof (induction s rule: key.induct)
  case (1 s)
  show ?case
  proof (cases "deref s = 0")
    case True
    then show ?thesis by (simp add: key_end c_str_end)
  next
    case nz: False
    show ?thesis
    proof (cases "isdigit (deref s)")
      case True
      have "concat (map untoken (key s)) =
          digit_run s @ map tolower (c_str (dropWhile isdigit s))"
        using 1(1) [OF nz True] by (simp add: key_digit [OF True] untoken_num)
      also have "\<dots> = map tolower (c_str s)"
        by (subst (2) c_str_digits) (simp add: map_tolower_digits)
      finally show ?thesis .
    next
      case False
      then have n: "nondigit (deref s)" using nz by (simp add: nondigit_def)
      from nz obtain c r where s: "s = c # r" "c \<noteq> 0" by (rule deref_nonzeroE)
      have k: "key (c # r) = chr_token c # key r"
        using n s key_nondigit [of "c # r"] by (simp add: deref_def)
      show ?thesis
        using 1(2) [OF nz False] s
        by (simp add: k untoken_chr c_str_Cons)
    qed
  qed
qed

lemma takeWhile_run_append: "takeWhile P (takeWhile P s @ r) = takeWhile P s @ takeWhile P r"
  by (rule takeWhile_append2) (auto dest: set_takeWhileD)

lemma dropWhile_run_append: "dropWhile P (takeWhile P s @ r) = dropWhile P r"
  by (rule dropWhile_append2) (auto dest: set_takeWhileD)

lemma digit_run_append:
  "\<not> isdigit (deref r) \<Longrightarrow> digit_run (digit_run s @ r) = digit_run s"
  unfolding digit_run_def
  by (cases r) (auto simp: deref_def takeWhile_run_append dest!: set_takeWhileD)

lemma dropWhile_digit_run_append:
  "\<not> isdigit (deref r) \<Longrightarrow> dropWhile isdigit (digit_run s @ r) = r"
  unfolding digit_run_def
  by (cases r) (auto simp: deref_def dropWhile_run_append dest!: set_takeWhileD)

lemma deref_fold_c_str: "deref (map tolower (c_str s)) = tolower (deref s)"
  by (cases s) (auto simp: deref_def c_str_def tolower_eq_0)

lemma deref_digit_run_append:
  "isdigit (deref s) \<Longrightarrow> deref (digit_run s @ r) = deref s"
  by (cases s) (auto simp: deref_def digit_run_def not_isdigit_0)

lemma key_fold: "key (map tolower (c_str s)) = key s"
proof (induction s rule: key.induct)
  case (1 s)
  show ?case
  proof (cases "deref s = 0")
    case True
    then show ?thesis by (simp add: key_end c_str_end deref_def)
  next
    case nz: False
    show ?thesis
    proof (cases "isdigit (deref s)")
      case True
      let ?r = "map tolower (c_str (dropWhile isdigit s))"
      have fs: "map tolower (c_str s) = digit_run s @ ?r"
        by (subst c_str_digits) (simp add: map_tolower_digits)
      have nd: "\<not> isdigit (deref ?r)"
        by (simp add: deref_fold_c_str isdigit_tolower after_digits)
      have d: "isdigit (deref (digit_run s @ ?r))"
        using True by (simp add: deref_digit_run_append)
      have "key (digit_run s @ ?r) = num_token (digit_run s @ ?r) # key ?r"
        using key_digit [OF d] by (simp add: dropWhile_digit_run_append [OF nd])
      also have "num_token (digit_run s @ ?r) = num_token s"
        by (simp add: num_token_def digit_run_append [OF nd])
      also have "key ?r = key (dropWhile isdigit s)"
        using 1(1) [OF nz True] .
      finally show ?thesis
        by (simp add: fs key_digit [OF True])
    next
      case False
      then have n: "nondigit (deref s)" using nz by (simp add: nondigit_def)
      from nz obtain c r where s: "s = c # r" "c \<noteq> 0" by (rule deref_nonzeroE)
      have n': "nondigit (deref (tolower c # map tolower (c_str r)))"
        using n s by (simp add: deref_def nondigit_tolower)
      have k: "key (c # r) = chr_token c # key r"
        using n s key_nondigit [of "c # r"] by (simp add: deref_def)
      have k': "key (tolower c # map tolower (c_str r)) =
          chr_token (tolower c) # key (map tolower (c_str r))"
        using key_nondigit [OF n'] by (simp add: deref_def)
      show ?thesis
        using 1(2) [OF nz False] s
        by (simp add: c_str_Cons k k' chr_token_def tolower_idem)
    qed
  qed
qed

lemma key_eq_iff: "(key a = key b) = (map tolower (c_str a) = map tolower (c_str b))"
proof
  assume "key a = key b"
  then show "map tolower (c_str a) = map tolower (c_str b)"
    by (metis unkey)
next
  assume "map tolower (c_str a) = map tolower (c_str b)"
  then show "key a = key b"
    by (metis key_fold)
qed

lemma tolower_eq_iff:
  "(tolower c = tolower d) =
     (c = d \<or> (65 \<le> c \<and> c \<le> 90 \<and> d = c + 32) \<or> (65 \<le> d \<and> d \<le> 90 \<and> c = d + 32))"
  unfolding tolower_def by (auto; unat_arith)

lemma dropWhile_digit_run: "dropWhile isdigit s = drop (length (digit_run s)) s"
  unfolding digit_run_def by (rule dropWhile_eq_drop)

lemma dropWhile_nondigit_run: "dropWhile nondigit s = drop (length (nondigit_run s)) s"
  unfolding nondigit_run_def by (rule dropWhile_eq_drop)

lemma first_diff_sign_pm:
  "length xs = length ys \<Longrightarrow> xs \<noteq> ys \<Longrightarrow>
   first_diff_sign xs ys = (if first_diff_sign xs ys < 0 then - 1 else 1)"
  using first_diff_sign_values [of xs ys] first_diff_sign_eq_0 [of xs ys] by auto

subsection \<open>Progress of the loop\<close>

lemma iter_sound:
  "natcmp_iter n compare a b = Some r \<Longrightarrow> natcmp_loop compare a b = Some r"
proof (induction n arbitrary: a b)
  case 0
  then show ?case
    by (subst (asm) natcmp_iter.simps) (auto simp: loop_end split: if_splits)
next
  case (Suc n)
  show ?case
  proof (cases "deref a \<noteq> 0 \<and> deref b \<noteq> 0")
    case False
    with Suc.prems show ?thesis
      by (subst (asm) natcmp_iter.simps) (auto simp: loop_end)
  next
    case True
    then have nz: "deref a \<noteq> 0" "deref b \<noteq> 0" by auto
    from Suc.prems True show ?thesis
      by (subst (asm) natcmp_iter.simps)
         (auto simp: loop_step [OF nz] Suc.IH split: sum.splits step.splits)
  qed
qed

lemma number_cases:
  "(\<exists>r. natcmp_number da db a b = Return r \<and> (r = - 1 \<or> r = 1)) \<or>
   natcmp_number da db a b = Continue (dropWhile isdigit a) (dropWhile isdigit b)"
proof (cases "da = db")
  case False
  then show ?thesis by (simp add: natcmp_number_mismatch)
next
  case True
  have "three_way (num_token a) (num_token b) = - 1 \<or> three_way (num_token a) (num_token b) = 1"
    if "num_token a \<noteq> num_token b"
    using that by (auto simp: three_way_def)
  then show ?thesis
    unfolding True natcmp_number_tokens by auto
qed

lemma suffix_dropWhile_dropWhile: "suffix (dropWhile P (dropWhile Q s)) s"
  by (meson suffix_dropWhile suffix_order.trans)

text \<open>What one evaluation of the body can do with a strategy that moves forward.\<close>

lemma body_advances:
  assumes adv: "advances compare" and nz: "deref a \<noteq> 0" "deref b \<noteq> 0"
  shows "(\<exists>r. natcmp_body compare a b = Inr (Return r) \<and> (r = - 1 \<or> r = 1)) \<or>
         (\<exists>a' b'. natcmp_body compare a b = Inr (Break a' b')) \<or>
         (\<exists>a' b'. natcmp_body compare a b = Inr (Continue a' b') \<and>
            suffix a' a \<and> suffix b' b \<and> length a' + length b' < length a + length b)"
proof (cases "isdigit (deref a) \<or> isdigit (deref b)")
  case True
  note body = body_number [OF True, of compare]
  from number_cases [of "isdigit (deref a)" "isdigit (deref b)" a b] show ?thesis
  proof
    assume "\<exists>r. natcmp_number (isdigit (deref a)) (isdigit (deref b)) a b = Return r \<and>
        (r = - 1 \<or> r = 1)"
    then show ?thesis using body by auto
  next
    assume c: "natcmp_number (isdigit (deref a)) (isdigit (deref b)) a b =
        Continue (dropWhile isdigit a) (dropWhile isdigit b)"
    have ne: "a \<noteq> []" "b \<noteq> []" using nz by (auto simp: deref_def)
    have "length (dropWhile isdigit a) \<le> length a" "length (dropWhile isdigit b) \<le> length b"
      by (simp_all add: length_dropWhile_le)
    moreover have "length (dropWhile isdigit a) < length a \<or>
        length (dropWhile isdigit b) < length b"
      using True length_dropWhile_less [OF ne(1), of isdigit]
        length_dropWhile_less [OF ne(2), of isdigit] by blast
    ultimately have "length (dropWhile isdigit a) + length (dropWhile isdigit b)
        < length a + length b" by linarith
    then show ?thesis
      using body c by (simp add: suffix_dropWhile)
  qed
next
  case False
  then have nd: "\<not> isdigit (deref a)" "\<not> isdigit (deref b)" by auto
  then have n: "nondigit (deref a)" "nondigit (deref b)"
    using nz by (simp_all add: nondigit_def)
  obtain r e where res: "compare a b None None = (r, e)"
    by (cases "compare a b None None")
  show ?thesis
  proof (cases "r = 0")
    case False
    with nd res have "natcmp_body compare a b = Inr (Return (if r < 0 then - 1 else 1))"
      by (rule body_strategy_nonzero)
    then show ?thesis by auto
  next
    case True
    with adv n res obtain a' b' where e: "e = (Some a', Some b')"
      and s: "suffix a' a" "suffix b' b"
      and l: "length a' + length b' < length a + length b"
      unfolding advances_def by fastforce
    have res': "compare a b None None = (0, Some a', Some b')"
      using res True e by simp
    have body: "natcmp_body compare a b =
       (if deref a' = 0 \<or> deref b' = 0 then Inr (Break a' b')
        else Inr (natcmp_number (isdigit (deref a')) (isdigit (deref b')) a' b'))"
      using nd res' by (rule body_strategy_zero)
    show ?thesis
    proof (cases "deref a' = 0 \<or> deref b' = 0")
      case True
      then show ?thesis using body by simp
    next
      case False
      from number_cases [of "isdigit (deref a')" "isdigit (deref b')" a' b'] show ?thesis
      proof
        assume "\<exists>r. natcmp_number (isdigit (deref a')) (isdigit (deref b')) a' b' = Return r \<and>
            (r = - 1 \<or> r = 1)"
        then show ?thesis using body False by auto
      next
        assume c: "natcmp_number (isdigit (deref a')) (isdigit (deref b')) a' b' =
            Continue (dropWhile isdigit a') (dropWhile isdigit b')"
        have "suffix (dropWhile isdigit a') a" "suffix (dropWhile isdigit b') b"
          using s by (meson suffix_dropWhile suffix_order.trans)+
        moreover have "length (dropWhile isdigit a') + length (dropWhile isdigit b')
            < length a + length b"
          using l length_dropWhile_le [of isdigit a'] length_dropWhile_le [of isdigit b']
          by linarith
        ultimately show ?thesis
          using body False c by simp
      qed
    qed
  qed
qed

lemma tail_values: "natcmp_tail a b = - 1 \<or> natcmp_tail a b = 0 \<or> natcmp_tail a b = 1"
  by (simp add: natcmp_tail_def)

lemma loop_advances:
  assumes "advances compare"
  shows "\<exists>r. natcmp_loop compare a b = Some (Inr r) \<and> (r = - 1 \<or> r = 0 \<or> r = 1)"
proof (induction "length a + length b" arbitrary: a b rule: less_induct)
  case less
  show ?case
  proof (cases "deref a \<noteq> 0 \<and> deref b \<noteq> 0")
    case False
    then show ?thesis using tail_values [of a b] by (simp add: loop_end)
  next
    case True
    then have nz: "deref a \<noteq> 0" "deref b \<noteq> 0" by auto
    from body_advances [OF assms nz] consider
      (ret) r where "natcmp_body compare a b = Inr (Return r)" "r = - 1 \<or> r = 1"
      | (brk) a' b' where "natcmp_body compare a b = Inr (Break a' b')"
      | (cont) a' b' where "natcmp_body compare a b = Inr (Continue a' b')"
          "length a' + length b' < length a + length b"
      by blast
    then show ?thesis
    proof cases
      case ret
      then show ?thesis by (auto simp: loop_step [OF nz])
    next
      case brk
      then show ?thesis using tail_values [of a' b'] by (simp add: loop_step [OF nz])
    next
      case cont
      from less [OF cont(2)] cont(1) show ?thesis by (simp add: loop_step [OF nz])
    qed
  qed
qed

subsection \<open>Strategies in general\<close>

lemma number_return: "natcmp_number da db a b = Return r \<Longrightarrow> r = - 1 \<or> r = 1"
  using number_cases [of da db a b] by auto

lemma body_return: "natcmp_body c a b = Inr (Return r) \<Longrightarrow> r = - 1 \<or> r = 1"
  by (auto simp: natcmp_body_def Let_def split: if_splits prod.splits option.splits
      dest: number_return)

lemma loop_body_cong_Some:
  "natcmp_loop c a b = Some y \<Longrightarrow>
   (\<forall>c'. (\<forall>a b. natcmp_body c a b = natcmp_body c' a b) \<longrightarrow> natcmp_loop c' a b = Some y)"
proof (induct rule: natcmp_loop.raw_induct [rotated 1, consumes 1])
  case (1 f c a b y)
  show ?case
  proof (intro allI impI)
    fix c' assume eq: "\<forall>a b. natcmp_body c a b = natcmp_body c' a b"
    show "natcmp_loop c' a b = Some y"
    proof (cases "deref a \<noteq> 0 \<and> deref b \<noteq> 0")
      case False
      with 1(2) show ?thesis by (simp add: loop_end)
    next
      case True
      then have nz: "deref a \<noteq> 0" "deref b \<noteq> 0" by auto
      have b: "natcmp_body c' a b = natcmp_body c a b" using eq by simp
      show ?thesis
      proof (cases "natcmp_body c a b")
        case (Inl e)
        with 1(2) True show ?thesis by (simp add: loop_step [OF nz] b)
      next
        case (Inr st)
        show ?thesis
        proof (cases st)
          case (Return r)
          with 1(2) True Inr show ?thesis by (simp add: loop_step [OF nz] b)
        next
          case (Break a' b')
          with 1(2) True Inr show ?thesis by (simp add: loop_step [OF nz] b)
        next
          case (Continue a' b')
          with 1(2) True Inr have "f c a' b' = Some y" by simp
          then have "natcmp_loop c' a' b' = Some y" using 1(1) eq by blast
          with Continue Inr show ?thesis by (simp add: loop_step [OF nz] b)
        qed
      qed
    qed
  qed
qed

lemma loop_body_cong:
  assumes "\<And>a b. natcmp_body c a b = natcmp_body c' a b"
  shows "natcmp_loop c a b = natcmp_loop c' a b"
proof (cases "natcmp_loop c a b")
  case (Some y)
  then show ?thesis using loop_body_cong_Some [OF Some] assms by simp
next
  case None
  show ?thesis
  proof (cases "natcmp_loop c' a b")
    case (Some y)
    then have "natcmp_loop c a b = Some y"
      using loop_body_cong_Some [OF Some] assms by simp
    with None show ?thesis by simp
  qed (simp add: None)
qed

lemma body_sign_cong:
  assumes "sgn (fst (c' a b None None)) = sgn (fst (c a b None None))"
    and "snd (c' a b None None) = snd (c a b None None)"
  shows "natcmp_body c' a b = natcmp_body c a b"
proof -
  obtain r e where r: "c a b None None = (r, e)" by (cases "c a b None None")
  obtain r' e' where r': "c' a b None None = (r', e')" by (cases "c' a b None None")
  have "e' = e" "sgn r' = sgn r" using assms r r' by simp_all
  then have "(r' = 0) = (r = 0)" "(r' < 0) = (r < 0)"
    by (auto simp: sgn_if split: if_splits)
  then show ?thesis
    using \<open>e' = e\<close> by (simp add: natcmp_body_def Let_def r r')
qed

lemma loop_values_Some:
  "natcmp_loop c a b = Some y \<Longrightarrow> (\<forall>r. y = Inr r \<longrightarrow> r = - 1 \<or> r = 0 \<or> r = 1)"
proof (induct rule: natcmp_loop.raw_induct [rotated 1, consumes 1])
  case (1 f c a b y)
  show ?case
  proof (cases "deref a \<noteq> 0 \<and> deref b \<noteq> 0")
    case False
    with 1(2) show ?thesis using tail_values [of a b] by auto
  next
    case True
    show ?thesis
    proof (cases "natcmp_body c a b")
      case (Inl e)
      with 1(2) True show ?thesis by auto
    next
      case (Inr st)
      show ?thesis
      proof (cases st)
        case (Return r)
        have "r = - 1 \<or> r = 1"
          using Inr Return body_return by simp
        with 1(2) True Inr Return show ?thesis by auto
      next
        case (Break a' b')
        with 1(2) True Inr show ?thesis using tail_values [of a' b'] by auto
      next
        case (Continue a' b')
        with 1(2) True Inr have "f c a' b' = Some y" by simp
        then show ?thesis using 1(1) by blast
      qed
    qed
  qed
qed

lemma stuck_never_returns:
  "natcmp_loop c a b = Some y \<Longrightarrow>
   \<not> (c = stuck_strategy \<and> nondigit (deref a) \<and> nondigit (deref b))"
proof (induct rule: natcmp_loop.raw_induct [rotated 1, consumes 1])
  case (1 f c a b y)
  show ?case
  proof
    assume h: "c = stuck_strategy \<and> nondigit (deref a) \<and> nondigit (deref b)"
    then have nz: "deref a \<noteq> 0" "deref b \<noteq> 0"
      and nd: "\<not> isdigit (deref a)" "\<not> isdigit (deref b)"
      by (simp_all add: nondigit_def)
    have res: "stuck_strategy a b None None = (0, Some a, Some b)"
      by (simp add: stuck_strategy_def)
    have "digit_run a = []" "digit_run b = []"
      using nd by (cases a; cases b; simp add: digit_run_def deref_def)+
    then have tok: "num_token a = num_token b" by (simp add: num_token_def)
    have dw: "dropWhile isdigit a = a" "dropWhile isdigit b = b"
      using nd by (cases a; cases b; simp add: deref_def)+
    have "natcmp_body stuck_strategy a b =
       (if deref a = 0 \<or> deref b = 0 then Inr (Break a b)
        else Inr (natcmp_number (isdigit (deref a)) (isdigit (deref b)) a b))"
      using nd res by (rule body_strategy_zero)
    then have "natcmp_body stuck_strategy a b = Inr (Continue a b)"
      using nz nd by (simp add: natcmp_number_tokens tok dw)
    with 1(2) h nz have "f c a b = Some y" by simp
    then show False using 1(1) h by blast
  qed
qed

lemma ascii_strategy_zero:
  assumes n: "nondigit (deref a)" "nondigit (deref b)"
    and z: "fst (natcmp_nondigit_cmp_ascii a b None None) = 0"
  shows "natcmp_nondigit_cmp_ascii a b None None =
     (0, Some (dropWhile nondigit a), Some (dropWhile nondigit b))"
proof -
  have "three_way (key a) (key b) \<noteq> 0"
    if "\<not> (length (nondigit_run a) = length (nondigit_run b) \<and>
         map tolower (nondigit_run a) = map tolower (nondigit_run b))"
    using ascii_strategy_key(2) [OF n] that
    by (metis one_neq_zero neg_equal_0_iff_equal)
  then show ?thesis
    using z ascii_strategy_key(1) [OF n] by (auto split: if_splits)
qed

lemma advances_ascii: "advances natcmp_nondigit_cmp_ascii"
  unfolding advances_def
proof (intro allI impI, elim conjE)
  fix a b
  assume n: "nondigit (deref a)" "nondigit (deref b)"
    and z: "fst (natcmp_nondigit_cmp_ascii a b None None) = 0"
  have ne: "a \<noteq> []" "b \<noteq> []" using n by (auto simp: nondigit_def deref_def)
  have "snd (natcmp_nondigit_cmp_ascii a b None None) =
      (Some (dropWhile nondigit a), Some (dropWhile nondigit b))"
    using ascii_strategy_zero [OF n z] by simp
  moreover have "length (dropWhile nondigit a) + length (dropWhile nondigit b)
      < length a + length b"
    using length_dropWhile_less [OF ne(1), of nondigit]
      length_dropWhile_less [OF ne(2), of nondigit] n by simp
  ultimately show "\<exists>a' b'. snd (natcmp_nondigit_cmp_ascii a b None None) = (Some a', Some b') \<and>
      suffix a' a \<and> suffix b' b \<and> length a' + length b' < length a + length b"
    by (simp add: suffix_dropWhile)
qed

lemma advances_scale: "k \<noteq> 0 \<Longrightarrow> advances c \<Longrightarrow> advances (scale_strategy k c)"
  unfolding advances_def scale_strategy_def
  by (auto simp: split_beta)

lemma strcmp_cb_scan_suffix:
  "suffix (fst (strcmp_cb_scan a b)) a \<and> suffix (snd (strcmp_cb_scan a b)) b"
  by (induction a b rule: strcmp_cb_scan.induct) (auto simp: suffix_Cons)

lemma advances_strcmp_cb: "advances strcmp_cb"
  unfolding advances_def
proof (intro allI impI, elim conjE)
  fix a b
  assume n: "nondigit (deref a)" "nondigit (deref b)"
    and z: "fst (strcmp_cb a b None None) = 0"
  from n obtain c a' d b' where ab: "a = c # a'" "b = d # b'"
    and cd: "nondigit c" "nondigit d"
    by (cases a; cases b) (auto simp: deref_def nondigit_def)
  have eq: "c = d"
  proof (rule ccontr)
    assume "c \<noteq> d"
    then have "strcmp_cb a b None None = (if c < d then - 1 else 1, Some a, Some b)"
      using cd by (auto simp: strcmp_cb_def ab deref_def nondigit_def)
    with z show False by (simp split: if_splits)
  qed
  then have scan: "strcmp_cb_scan a b = strcmp_cb_scan a' b'"
    using cd by (simp add: ab nondigit_def)
  obtain p q where pq: "strcmp_cb_scan a' b' = (p, q)" by (cases "strcmp_cb_scan a' b'")
  have s: "suffix p a'" "suffix q b'"
    using strcmp_cb_scan_suffix [of a' b'] pq by simp_all
  then have l: "length p \<le> length a'" "length q \<le> length b'"
    by (simp_all add: suffix_length_le)
  have "snd (strcmp_cb a b None None) = (Some p, Some q)"
    by (simp add: strcmp_cb_def scan pq)
  moreover have "suffix p a" "suffix q b"
    using s by (simp_all add: ab suffix_Cons)
  moreover have "length p + length q < length a + length b"
    using l by (simp add: ab)
  ultimately show "\<exists>a' b'. snd (strcmp_cb a b None None) = (Some a', Some b') \<and>
      suffix a' a \<and> suffix b' b \<and> length a' + length b' < length a + length b"
    by blast
qed

lemma dropWhile_id: "\<not> P (deref s) \<Longrightarrow> dropWhile P s = s"
  by (cases s) (auto simp: deref_def)

lemma strlen_dropWhile:
  assumes "\<And>c. P c \<Longrightarrow> c \<noteq> 0"
  shows "strlen s = length (takeWhile P s) + strlen (dropWhile P s)"
proof -
  have "c_str s = c_str (takeWhile P s @ dropWhile P s)" by simp
  also have "\<dots> = takeWhile P s @ c_str (dropWhile P s)"
    unfolding c_str_def
    by (rule takeWhile_append2) (auto dest!: set_takeWhileD assms)
  finally show ?thesis by (simp add: strlen_def)
qed

lemma strlen_dropWhile_less:
  assumes "\<And>c. P c \<Longrightarrow> c \<noteq> 0" and "P (deref s)" and "deref s \<noteq> 0"
  shows "strlen (dropWhile P s) < strlen s"
proof -
  from assms(2,3) have "takeWhile P s \<noteq> []"
    by (cases s) (auto simp: deref_def)
  then show ?thesis
    using strlen_dropWhile [of P s, OF assms(1)] by simp
qed

lemma strlen_dropWhile_le:
  assumes "\<And>c. P c \<Longrightarrow> c \<noteq> 0"
  shows "strlen (dropWhile P s) \<le> strlen s"
  using strlen_dropWhile [of P s, OF assms] by simp

lemma strlen_positive: "deref s \<noteq> 0 \<Longrightarrow> 0 < strlen s"
  by (cases s) (auto simp: deref_def strlen_def c_str_def)

text \<open>An iteration of the default strategy's loop that goes on has consumed a digit run
  on each side, after the non-digit runs if the cursors were on non-digit bytes.\<close>

lemma body_ascii_continue:
  assumes nz: "deref a \<noteq> 0" "deref b \<noteq> 0"
    and c: "natcmp_body natcmp_nondigit_cmp_ascii a b = Inr (Continue a' b')"
  shows "a' = dropWhile isdigit (dropWhile nondigit a) \<and>
         b' = dropWhile isdigit (dropWhile nondigit b) \<and>
         isdigit (deref (dropWhile nondigit a)) \<and> isdigit (deref (dropWhile nondigit b))"
proof -
  consider (dd) "isdigit (deref a)" "isdigit (deref b)"
    | (mm) "isdigit (deref a) \<noteq> isdigit (deref b)"
    | (nn) "\<not> isdigit (deref a)" "\<not> isdigit (deref b)"
    by blast
  then show ?thesis
  proof cases
    case dd
    then have id: "dropWhile nondigit a = a" "dropWhile nondigit b = b"
      by (simp_all add: dropWhile_id nondigit_def)
    have "natcmp_body natcmp_nondigit_cmp_ascii a b = Inr (natcmp_number True True a b)"
      using dd body_number [of a b natcmp_nondigit_cmp_ascii] by simp
    with c have "natcmp_number True True a b = Continue a' b'" by simp
    then show ?thesis
      using number_cases [of True True a b] dd by (auto simp: id)
  next
    case mm
    then have "isdigit (deref a) \<or> isdigit (deref b)" by blast
    then have "natcmp_body natcmp_nondigit_cmp_ascii a b =
        Inr (natcmp_number (isdigit (deref a)) (isdigit (deref b)) a b)"
      by (rule body_number)
    with c mm show ?thesis by (simp add: natcmp_number_mismatch)
  next
    case nn
    then have n: "nondigit (deref a)" "nondigit (deref b)"
      using nz by (simp_all add: nondigit_def)
    let ?pa = "dropWhile nondigit a" and ?pb = "dropWhile nondigit b"
    obtain r e where res: "natcmp_nondigit_cmp_ascii a b None None = (r, e)"
      by (cases "natcmp_nondigit_cmp_ascii a b None None")
    have r0: "r = 0"
    proof (rule ccontr)
      assume "r \<noteq> 0"
      with nn res have "natcmp_body natcmp_nondigit_cmp_ascii a b =
          Inr (Return (if r < 0 then - 1 else 1))"
        by (rule body_strategy_nonzero)
      with c show False by simp
    qed
    then have "fst (natcmp_nondigit_cmp_ascii a b None None) = 0" using res by simp
    with n have res': "natcmp_nondigit_cmp_ascii a b None None = (0, Some ?pa, Some ?pb)"
      by (rule ascii_strategy_zero)
    have body: "natcmp_body natcmp_nondigit_cmp_ascii a b =
       (if deref ?pa = 0 \<or> deref ?pb = 0 then Inr (Break ?pa ?pb)
        else Inr (natcmp_number (isdigit (deref ?pa)) (isdigit (deref ?pb)) ?pa ?pb))"
      using nn res' by (rule body_strategy_zero)
    with c have nz': "deref ?pa \<noteq> 0" "deref ?pb \<noteq> 0"
      by (auto split: if_splits)
    then have d: "isdigit (deref ?pa)" "isdigit (deref ?pb)"
      using after_nondigits [of a] after_nondigits [of b] by auto
    from body c nz' have "natcmp_number (isdigit (deref ?pa)) (isdigit (deref ?pb)) ?pa ?pb
        = Continue a' b'" by simp
    then show ?thesis
      using number_cases [of "isdigit (deref ?pa)" "isdigit (deref ?pb)" ?pa ?pb] d by auto
  qed
qed

lemma body_ascii_progress:
  assumes nz: "deref a \<noteq> 0" "deref b \<noteq> 0"
    and c: "natcmp_body natcmp_nondigit_cmp_ascii a b = Inr (Continue a' b')"
  shows "suffix a' a \<and> suffix b' b \<and> strlen a' < strlen a \<and> strlen b' < strlen b"
proof -
  have less: "strlen (dropWhile isdigit (dropWhile nondigit s)) < strlen s"
    if "isdigit (deref (dropWhile nondigit s))" for s
  proof -
    have "strlen (dropWhile isdigit (dropWhile nondigit s)) < strlen (dropWhile nondigit s)"
      using that by (intro strlen_dropWhile_less) (auto dest: isdigit_nonzero)
    also have "\<dots> \<le> strlen s"
      by (rule strlen_dropWhile_le) (simp add: nondigit_def)
    finally show ?thesis .
  qed
  from body_ascii_continue [OF nz c] show ?thesis
    using less [of a] less [of b] by (simp add: suffix_dropWhile_dropWhile)
qed

lemma iter_ascii_complete:
  "strlen a + strlen b \<le> n \<Longrightarrow>
   \<exists>r. natcmp_iter n natcmp_nondigit_cmp_ascii a b = Some (Inr r)"
proof (induction n arbitrary: a b)
  case 0
  then have "strlen a = 0" "strlen b = 0" by simp_all
  then have "deref a = 0" using strlen_positive [of a] by auto
  then show ?case by (subst natcmp_iter.simps) simp
next
  case (Suc n)
  show ?case
  proof (cases "deref a \<noteq> 0 \<and> deref b \<noteq> 0")
    case False
    then show ?thesis by (subst natcmp_iter.simps) auto
  next
    case True
    then have nz: "deref a \<noteq> 0" "deref b \<noteq> 0" by auto
    from body_advances [OF advances_ascii nz] consider
      (ret) r where "natcmp_body natcmp_nondigit_cmp_ascii a b = Inr (Return r)"
      | (brk) a' b' where "natcmp_body natcmp_nondigit_cmp_ascii a b = Inr (Break a' b')"
      | (cont) a' b' where "natcmp_body natcmp_nondigit_cmp_ascii a b = Inr (Continue a' b')"
      by blast
    then show ?thesis
    proof cases
      case ret
      then show ?thesis using nz by (subst natcmp_iter.simps) simp
    next
      case brk
      then show ?thesis using nz by (subst natcmp_iter.simps) simp
    next
      case cont
      from body_ascii_progress [OF nz cont] Suc.prems
      have "strlen a' + strlen b' \<le> n" by linarith
      from Suc.IH [OF this] cont nz show ?thesis
        by (subst natcmp_iter.simps) simp
    qed
  qed
qed

section \<open>The claims\<close>

subsection \<open>C1\<close>

text \<open>
  C1: when both cursors are on ASCII digits the two digit runs are compared as numbers,
  whatever the strategy, and whether the iteration started on the digits or reached them
  through a strategy call that returned 0 and set the cursors there: (a) if the numbers
  of significant digits (leading zeros stripped) differ, the string with fewer significant
  digits is the smaller one; (b) otherwise the first significant digit that differs
  decides; (c) if the significant digits are the same, the longer run (the one with more
  leading zeros) is the greater one; (d) if the two runs are equal, both cursors move
  past their whole digit runs and the loop goes on from there. Here \<open>a\<close> and \<open>b\<close>
  are the cursors on the digits, and \<open>a0\<close> and \<open>b0\<close> the cursors the strategy was
  called on. In particular \<^verbatim>\<open>"file2.txt"\<close> is smaller than
  \<^verbatim>\<open>"file10.txt"\<close> and \<^verbatim>\<open>"file02.txt"\<close> is smaller than
  \<^verbatim>\<open>"file002.txt"\<close> with the default strategy.
\<close>

theorem natcmp_digit_runs:
  assumes "isdigit (deref a)" and "isdigit (deref b)"
  shows "natcmp_loop compare a b =
     (let ra = digit_run a; rb = digit_run b; sa = significant ra; sb = significant rb
      in if length sa \<noteq> length sb then Some (Inr (if length sa < length sb then - 1 else 1))
         else if sa \<noteq> sb then Some (Inr (if first_diff_sign sa sb < 0 then - 1 else 1))
         else if length ra \<noteq> length rb then Some (Inr (if length ra < length rb then - 1 else 1))
         else natcmp_loop compare (drop (length ra) a) (drop (length rb) b))
   \<and> (deref a0 \<noteq> 0 \<and> deref b0 \<noteq> 0 \<and> \<not> isdigit (deref a0) \<and> \<not> isdigit (deref b0) \<and>
       compare a0 b0 None None = (0, Some a, Some b) \<longrightarrow>
      natcmp_loop compare a0 b0 =
        (let ra = digit_run a; rb = digit_run b; sa = significant ra; sb = significant rb
         in if length sa \<noteq> length sb
              then Some (Inr (if length sa < length sb then - 1 else 1))
            else if sa \<noteq> sb then Some (Inr (if first_diff_sign sa sb < 0 then - 1 else 1))
            else if length ra \<noteq> length rb
              then Some (Inr (if length ra < length rb then - 1 else 1))
            else natcmp_loop compare (drop (length ra) a) (drop (length rb) b))
      \<and> natcmp_body compare a0 b0 = natcmp_body compare a b)
   \<and> natcmp_body compare a b =
       Inr (let ra = digit_run a; rb = digit_run b; sa = significant ra; sb = significant rb
            in if length sa \<noteq> length sb then Return (if length sa < length sb then - 1 else 1)
               else if sa \<noteq> sb then Return (if first_diff_sign sa sb < 0 then - 1 else 1)
               else if length ra \<noteq> length rb
                 then Return (if length ra < length rb then - 1 else 1)
               else Continue (drop (length ra) a) (drop (length rb) b))
   \<and> (digit_run a = digit_run b \<longrightarrow>
        natcmp_body compare a b =
          Inr (Continue (drop (length (digit_run a)) a) (drop (length (digit_run b)) b)))
   \<and> natcmp (bytes ''file2.txt'') (bytes ''file10.txt'') None = Some (Inr (- 1))
   \<and> natcmp (bytes ''file10.txt'') (bytes ''file2.txt'') None = Some (Inr 1)
   \<and> natcmp (bytes ''file02.txt'') (bytes ''file002.txt'') None = Some (Inr (- 1))"
proof -
  define ra rb where "ra = digit_run a" and "rb = digit_run b"
  define sa sb where "sa = significant ra" and "sb = significant rb"
  define S where "S =
      (if length sa \<noteq> length sb then Return (if length sa < length sb then - 1 else 1)
       else if sa \<noteq> sb then Return (if first_diff_sign sa sb < 0 then - 1 else 1)
       else if length ra \<noteq> length rb then Return (if length ra < length rb then - 1 else 1)
       else Continue (drop (length ra) a) (drop (length rb) b))"
  define R where "R =
      (if length sa \<noteq> length sb then Some (Inr (if length sa < length sb then - 1 else 1))
       else if sa \<noteq> sb then Some (Inr (if first_diff_sign sa sb < 0 then - 1 else 1))
       else if length ra \<noteq> length rb then Some (Inr (if length ra < length rb then - 1 else 1))
       else natcmp_loop compare (drop (length ra) a) (drop (length rb) b))"
  have nz: "deref a \<noteq> 0" "deref b \<noteq> 0"
    using assms by (auto dest: isdigit_nonzero)
  have body: "natcmp_body compare a b = Inr (natcmp_number True True a b)"
    using assms body_number [of a b compare] by simp
  have num: "natcmp_number True True a b =
      (if length sa \<noteq> length sb then Return (if length sa < length sb then - 1 else 1)
       else if first_diff_sign sa sb \<noteq> 0 then Return (first_diff_sign sa sb)
       else if length ra \<noteq> length rb then Return (if length ra < length rb then - 1 else 1)
       else Continue (drop (length ra) a) (drop (length rb) b))"
    unfolding natcmp_number_same Let_def dropWhile_digit_run sa_def sb_def ra_def rb_def ..
  have fd: "(first_diff_sign sa sb \<noteq> 0) = (sa \<noteq> sb)" if "length sa = length sb"
    using first_diff_sign_eq_0 [OF that] by simp
  have pm: "first_diff_sign sa sb = (if first_diff_sign sa sb < 0 then - 1 else 1)"
    if "length sa = length sb" "sa \<noteq> sb"
    using that by (rule first_diff_sign_pm)
  have numS: "natcmp_number True True a b = S"
  proof (cases "length sa = length sb")
    case False
    then show ?thesis by (simp add: num S_def)
  next
    case True
    show ?thesis
    proof (cases "sa = sb")
      case False
      with True pm fd show ?thesis by (simp add: num S_def)
    next
      case eq: True
      then have "first_diff_sign sa sb = 0" using fd [OF True] by simp
      with True eq show ?thesis by (simp add: num S_def)
    qed
  qed
  have bodyS: "natcmp_body compare a b = Inr S"
    by (simp add: body numS)
  have 1: "natcmp_loop compare a b = R"
    by (simp add: loop_step [OF nz] bodyS S_def R_def)
  have 2: "natcmp_loop compare a0 b0 = R \<and> natcmp_body compare a0 b0 = natcmp_body compare a b"
    if h: "deref a0 \<noteq> 0 \<and> deref b0 \<noteq> 0 \<and> \<not> isdigit (deref a0) \<and> \<not> isdigit (deref b0) \<and>
       compare a0 b0 None None = (0, Some a, Some b)"
  proof -
    from h have nz0: "deref a0 \<noteq> 0" "deref b0 \<noteq> 0"
      and nd0: "\<not> isdigit (deref a0)" "\<not> isdigit (deref b0)"
      and res: "compare a0 b0 None None = (0, Some a, Some b)"
      by simp_all
    have stop: "deref a = 0 \<or> deref b = 0 \<or> isdigit (deref a) \<or> isdigit (deref b)"
      using assms by simp
    have "natcmp_loop compare a0 b0 = natcmp_loop compare a b"
      using nz0 nd0 res stop by (rule loop_after_strategy)
    moreover have "natcmp_body compare a0 b0 =
       (if deref a = 0 \<or> deref b = 0 then Inr (Break a b)
        else Inr (natcmp_number (isdigit (deref a)) (isdigit (deref b)) a b))"
      using nd0 res by (rule body_strategy_zero)
    then have "natcmp_body compare a0 b0 = natcmp_body compare a b"
      using nz assms by (simp add: body)
    ultimately show ?thesis using 1 by simp
  qed
  have 3: "natcmp_body compare a b = Inr (Continue (drop (length ra) a) (drop (length rb) b))"
    if "ra = rb"
  proof -
    have "sa = sb" "length ra = length rb" using that by (simp_all add: sa_def sb_def)
    then show ?thesis by (simp add: bodyS S_def)
  qed
  have 4: "natcmp (bytes ''file2.txt'') (bytes ''file10.txt'') None = Some (Inr (- 1))"
    "natcmp (bytes ''file10.txt'') (bytes ''file2.txt'') None = Some (Inr 1)"
    "natcmp (bytes ''file02.txt'') (bytes ''file002.txt'') None = Some (Inr (- 1))"
    by (simp_all add: natcmp_eval)
  from 1 2 bodyS 3 4 show ?thesis
    unfolding Let_def R_def S_def ra_def rb_def sa_def sb_def by blast
qed

theorem natcmp_digit_runs_witness:
  "isdigit (deref (bytes ''007x'')) \<and> isdigit (deref (bytes ''07y''))
   \<and> natcmp_loop strcmp_cb (bytes ''007x'') (bytes ''07y'') = Some (Inr 1)
   \<and> isdigit (deref (bytes ''12a'')) \<and> isdigit (deref (bytes ''12b''))
   \<and> digit_run (bytes ''12a'') = digit_run (bytes ''12b'')
   \<and> natcmp_body strcmp_cb (bytes ''12a'') (bytes ''12b'') =
       Inr (Continue (bytes ''a'') (bytes ''b''))
   \<and> isdigit (deref (bytes ''01'')) \<and> isdigit (deref (bytes ''2''))
   \<and> deref (bytes ''a01'') \<noteq> 0 \<and> deref (bytes ''a2'') \<noteq> 0
   \<and> \<not> isdigit (deref (bytes ''a01'')) \<and> \<not> isdigit (deref (bytes ''a2''))
   \<and> natcmp_nondigit_cmp_ascii (bytes ''a01'') (bytes ''a2'') None None =
       (0, Some (bytes ''01''), Some (bytes ''2''))
   \<and> natcmp_loop natcmp_nondigit_cmp_ascii (bytes ''a01'') (bytes ''a2'') = Some (Inr (- 1))
   \<and> natcmp_body natcmp_nondigit_cmp_ascii (bytes ''a01'') (bytes ''a2'') = Inr (Return (- 1))
   \<and> strcmp_cb (bytes ''x100'') (bytes ''x99'') None None =
       (0, Some (bytes ''100''), Some (bytes ''99''))
   \<and> natcmp_loop strcmp_cb (bytes ''x100'') (bytes ''x99'') = Some (Inr 1)"
proof -
  have d: "isdigit (deref (bytes ''007x''))" "isdigit (deref (bytes ''07y''))"
    "isdigit (deref (bytes ''12a''))" "isdigit (deref (bytes ''12b''))"
    "isdigit (deref (bytes ''01''))" "isdigit (deref (bytes ''2''))"
    "isdigit (deref (bytes ''100''))" "isdigit (deref (bytes ''99''))"
    by (simp_all add: bytes_def deref_def isdigit_def)
  have r: "digit_run (bytes ''12a'') = digit_run (bytes ''12b'')"
    by (simp add: digit_run_def bytes_def isdigit_def)
  have s1: "natcmp_nondigit_cmp_ascii (bytes ''a01'') (bytes ''a2'') None None =
       (0, Some (bytes ''01''), Some (bytes ''2''))"
    by (simp add: natcmp_nondigit_cmp_ascii_def bytes_def isdigit_def tolower_def deref_def
        Let_def)
  have s2: "strcmp_cb (bytes ''x100'') (bytes ''x99'') None None =
       (0, Some (bytes ''100''), Some (bytes ''99''))"
    by (simp add: strcmp_cb_def bytes_def isdigit_def deref_def)
  have n: "deref (bytes ''a01'') \<noteq> 0" "deref (bytes ''a2'') \<noteq> 0"
    "\<not> isdigit (deref (bytes ''a01''))" "\<not> isdigit (deref (bytes ''a2''))"
    "deref (bytes ''x100'') \<noteq> 0" "deref (bytes ''x99'') \<noteq> 0"
    "\<not> isdigit (deref (bytes ''x100''))" "\<not> isdigit (deref (bytes ''x99''))"
    by (simp_all add: bytes_def deref_def isdigit_def)
  show ?thesis
    using natcmp_digit_runs [OF d(1,2), of strcmp_cb]
      natcmp_digit_runs [OF d(3,4), of strcmp_cb]
      natcmp_digit_runs [OF d(5,6), of natcmp_nondigit_cmp_ascii "bytes ''a01''" "bytes ''a2''"]
      natcmp_digit_runs [OF d(7,8), of strcmp_cb "bytes ''x100''" "bytes ''x99''"]
      d r s1 s2 n
    by (simp add: digit_run_def significant_def bytes_def isdigit_def Let_def)
qed

subsection \<open>C2\<close>

text \<open>
  C2: \<^verbatim>\<open>natcmp_nondigit_cmp_ascii\<close> scans each string on its own up to its first
  ASCII digit or terminator and compares the two runs over the length of the shorter one,
  after ASCII case folding. If these prefixes differ, it returns the sign that the first
  differing byte gives, \<open>-1\<close> or 1, and leaves both output cells as they were. If they
  agree and the runs differ in length, it returns \<open>-1\<close> when the run of \<open>a\<close> is the
  shorter one and 1 when it is the longer one, whatever follows the runs, again without
  writing. Only when the runs agree in content and length does it return 0, with the two
  output cells set to the first digit or terminator of each string.
\<close>

theorem natcmp_nondigit_cmp_ascii_result:
  "natcmp_nondigit_cmp_ascii a b end_a end_b =
     (let ra = nondigit_run a; rb = nondigit_run b;
          n = min (length ra) (length rb);
          fa = map tolower (take n ra); fb = map tolower (take n rb)
      in if fa \<noteq> fb then (if first_diff_sign fa fb < 0 then - 1 else 1, end_a, end_b)
         else if length ra \<noteq> length rb
           then (if length ra < length rb then - 1 else 1, end_a, end_b)
         else (0, Some (drop (length ra) a), Some (drop (length rb) b)))
   \<and> list_all nondigit (nondigit_run a) \<and> list_all nondigit (nondigit_run b)
   \<and> (deref (drop (length (nondigit_run a)) a) = 0 \<or>
       isdigit (deref (drop (length (nondigit_run a)) a)))
   \<and> (deref (drop (length (nondigit_run b)) b) = 0 \<or>
       isdigit (deref (drop (length (nondigit_run b)) b)))"
proof -
  define ra rb where "ra = nondigit_run a" and "rb = nondigit_run b"
  define n where "n = min (length ra) (length rb)"
  define fa fb where "fa = map tolower (take n ra)" and "fb = map tolower (take n rb)"
  have len: "length fa = length fb"
    by (simp add: fa_def fb_def n_def)
  have strat: "natcmp_nondigit_cmp_ascii a b end_a end_b =
      (if first_diff_sign fa fb \<noteq> 0 then (first_diff_sign fa fb, end_a, end_b)
       else if length ra \<noteq> length rb
         then (if length ra < length rb then - 1 else 1, end_a, end_b)
       else (0, Some (drop (length ra) a), Some (drop (length rb) b)))"
    unfolding ascii_strategy Let_def dropWhile_nondigit_run fa_def fb_def n_def ra_def rb_def ..
  have 1: "natcmp_nondigit_cmp_ascii a b end_a end_b =
      (if fa \<noteq> fb then (if first_diff_sign fa fb < 0 then - 1 else 1, end_a, end_b)
       else if length ra \<noteq> length rb
         then (if length ra < length rb then - 1 else 1, end_a, end_b)
       else (0, Some (drop (length ra) a), Some (drop (length rb) b)))"
  proof (cases "fa = fb")
    case True
    then have "first_diff_sign fa fb = 0" by (simp add: first_diff_sign_eq_0)
    with True show ?thesis by (simp add: strat)
  next
    case False
    then have "first_diff_sign fa fb \<noteq> 0" using first_diff_sign_eq_0 [OF len] by simp
    with False first_diff_sign_pm [OF len False] show ?thesis by (simp add: strat)
  qed
  have 2: "list_all nondigit (nondigit_run s)" for s
    by (auto simp: nondigit_run_def list_all_iff dest: set_takeWhileD)
  have 3: "deref (drop (length (nondigit_run s)) s) = 0 \<or>
       isdigit (deref (drop (length (nondigit_run s)) s))" for s
    using after_nondigits [of s] by (simp add: dropWhile_nondigit_run)
  from 1 2 3 show ?thesis
    unfolding Let_def ra_def rb_def n_def fa_def fb_def by blast
qed

theorem natcmp_nondigit_cmp_ascii_result_witness:
  "natcmp_nondigit_cmp_ascii (bytes ''ab1'') (bytes ''ABc'') None None = (- 1, None, None)
   \<and> natcmp_nondigit_cmp_ascii (bytes ''aBc7x'') (bytes ''Abc'') None None =
       (0, Some (bytes ''7x''), Some (bytes ''''))
   \<and> natcmp_nondigit_cmp_ascii (bytes ''abd'') (bytes ''abc9'') None None = (1, None, None)"
  using natcmp_nondigit_cmp_ascii_result [of "bytes ''ab1''" "bytes ''ABc''" None None]
    natcmp_nondigit_cmp_ascii_result [of "bytes ''aBc7x''" "bytes ''Abc''" None None]
    natcmp_nondigit_cmp_ascii_result [of "bytes ''abd''" "bytes ''abc9''" None None]
  by (simp add: nondigit_run_def nondigit_def bytes_def isdigit_def tolower_def Let_def)

subsection \<open>C3\<close>

text \<open>
  C3: the order induced by the comparator with the default strategy is transitive: if
  \<^verbatim>\<open>natcmp(x, y) <= 0\<close> and \<^verbatim>\<open>natcmp(y, z) <= 0\<close> then
  \<^verbatim>\<open>natcmp(x, z) <= 0\<close>. It is a total order in the sense of a comparator: any
  two strings are comparable, every string is related to itself, and two strings that are
  related both ways are the ones the comparator reports as equal.
\<close>

theorem natcmp_transitive:
  "(natcmp_le x y \<and> natcmp_le y z \<longrightarrow> natcmp_le x z)
   \<and> (natcmp_le x y \<or> natcmp_le y x) \<and> natcmp_le x x
   \<and> (natcmp_le x y \<and> natcmp_le y x \<longrightarrow> natcmp x y None = Some (Inr 0))"
  by (auto simp: natcmp_le_key natcmp_default_key three_way_def)

theorem natcmp_transitive_witness:
  "natcmp_le (bytes ''a2'') (bytes ''A10'') \<and> natcmp_le (bytes ''A10'') (bytes ''b1'')
   \<and> natcmp_le (bytes ''a2'') (bytes ''b1'')
   \<and> natcmp_le (bytes ''a2'') (bytes ''A2'') \<and> natcmp_le (bytes ''A2'') (bytes ''a2'')
   \<and> natcmp (bytes ''a2'') (bytes ''A2'') None = Some (Inr 0)"
proof -
  have 1: "natcmp_le (bytes ''a2'') (bytes ''A10'')"
    by (simp add: natcmp_le_def natcmp_eval)
  have 2: "natcmp_le (bytes ''A10'') (bytes ''b1'')"
    by (simp add: natcmp_le_def natcmp_eval)
  have 3: "natcmp_le (bytes ''a2'') (bytes ''A2'')"
    by (simp add: natcmp_le_def natcmp_eval)
  have 4: "natcmp_le (bytes ''A2'') (bytes ''a2'')"
    by (simp add: natcmp_le_def natcmp_eval)
  from 1 2 3 4 natcmp_transitive [of "bytes ''a2''" "bytes ''A10''" "bytes ''b1''"]
    natcmp_transitive [of "bytes ''a2''" "bytes ''A2''"]
  show ?thesis by blast
qed

subsection \<open>C4\<close>

text \<open>
  C4: with the default strategy the comparator is antisymmetric: both calls return, and
  the sign of \<^verbatim>\<open>natcmp(x, y)\<close> is the opposite of the sign of
  \<^verbatim>\<open>natcmp(y, x)\<close>.
\<close>

theorem natcmp_antisymmetric:
  "\<exists>r s. natcmp x y None = Some (Inr r) \<and> natcmp y x None = Some (Inr s) \<and> sgn r = - sgn s"
proof -
  have "sgn (three_way (key x) (key y)) = - sgn (three_way (key y) (key x))"
    by (auto simp: three_way_def)
  then show ?thesis
    by (simp add: natcmp_default_key)
qed

subsection \<open>C5\<close>

text \<open>
  C5: with the default strategy the comparator terminates on every pair of strings. The
  number of evaluations of the loop body is bounded by the combined length of the two
  strings: that many evaluations always finish the call. The reason is that an iteration
  that does not return or leave the loop moves the cursors forward only, and strictly
  forward (on both sides, in fact).
\<close>

theorem natcmp_terminates:
  "(\<exists>r. natcmp a b None = Some (Inr r))
   \<and> natcmp_iter (strlen a + strlen b) natcmp_nondigit_cmp_ascii a b = natcmp a b None
   \<and> (deref a \<noteq> 0 \<and> deref b \<noteq> 0 \<and>
       natcmp_body natcmp_nondigit_cmp_ascii a b = Inr (Continue a' b') \<longrightarrow>
      suffix a' a \<and> suffix b' b \<and> strlen a' < strlen a \<and> strlen b' < strlen b)"
proof -
  obtain r where it: "natcmp_iter (strlen a + strlen b) natcmp_nondigit_cmp_ascii a b =
      Some (Inr r)"
    using iter_ascii_complete [of a b "strlen a + strlen b"] by auto
  then have "natcmp_loop natcmp_nondigit_cmp_ascii a b = Some (Inr r)"
    by (rule iter_sound)
  then have 1: "natcmp a b None = Some (Inr r)" by (simp add: natcmp_def)
  show ?thesis
    using 1 it body_ascii_progress [of a b a' b'] by simp
qed

theorem natcmp_terminates_witness:
  "deref (bytes ''ab12cd'') \<noteq> 0 \<and> deref (bytes ''AB12ce'') \<noteq> 0
   \<and> natcmp_body natcmp_nondigit_cmp_ascii (bytes ''ab12cd'') (bytes ''AB12ce'') =
       Inr (Continue (bytes ''cd'') (bytes ''ce''))
   \<and> suffix (bytes ''cd'') (bytes ''ab12cd'') \<and> suffix (bytes ''ce'') (bytes ''AB12ce'')
   \<and> strlen (bytes ''cd'') < strlen (bytes ''ab12cd'')
   \<and> strlen (bytes ''ce'') < strlen (bytes ''AB12ce'')
   \<and> natcmp_iter 12 natcmp_nondigit_cmp_ascii (bytes ''ab12cd'') (bytes ''AB12ce'')
       = natcmp (bytes ''ab12cd'') (bytes ''AB12ce'') None"
proof -
  have b: "natcmp_body natcmp_nondigit_cmp_ascii (bytes ''ab12cd'') (bytes ''AB12ce'') =
       Inr (Continue (bytes ''cd'') (bytes ''ce''))"
    by (simp add: natcmp_body_def natcmp_number_def natcmp_nondigit_cmp_ascii_def bytes_def
        deref_def isdigit_def tolower_def Let_def)
  have nz: "deref (bytes ''ab12cd'') \<noteq> 0" "deref (bytes ''AB12ce'') \<noteq> 0"
    by (simp_all add: bytes_def deref_def)
  have l: "strlen (bytes ''ab12cd'') + strlen (bytes ''AB12ce'') = 12"
    by (simp add: strlen_def c_str_def bytes_def)
  show ?thesis
    using natcmp_terminates [of "bytes ''ab12cd''" "bytes ''AB12ce''" "bytes ''cd''" "bytes ''ce''"]
      b nz l by simp
qed

subsection \<open>C6\<close>

text \<open>
  C6: whenever the two current bytes are compared and exactly one of them is an ASCII
  digit, at the start of an iteration or after a strategy call that returned 0 and moved
  the cursors, the function returns at once: \<open>-1\<close> if the digit is on side \<open>a\<close>, 1 if
  it is on side \<open>b\<close>. This holds for every strategy. In particular
  \<^verbatim>\<open>"1abc"\<close> is smaller than \<^verbatim>\<open>"abc"\<close>.
\<close>

theorem natcmp_digit_before_nondigit:
  "(deref a \<noteq> 0 \<and> deref b \<noteq> 0 \<and> isdigit (deref a) \<noteq> isdigit (deref b) \<longrightarrow>
      natcmp_loop compare a b = Some (Inr (if isdigit (deref a) then - 1 else 1)))
   \<and> (deref a \<noteq> 0 \<and> deref b \<noteq> 0 \<and> \<not> isdigit (deref a) \<and> \<not> isdigit (deref b) \<and>
       compare a b None None = (0, Some a', Some b') \<and>
       deref a' \<noteq> 0 \<and> deref b' \<noteq> 0 \<and> isdigit (deref a') \<noteq> isdigit (deref b') \<longrightarrow>
      natcmp_loop compare a b = Some (Inr (if isdigit (deref a') then - 1 else 1)))
   \<and> natcmp (bytes ''1abc'') (bytes ''abc'') None = Some (Inr (- 1))"
proof -
  have 1: "natcmp_loop compare a b = Some (Inr (if isdigit (deref a) then - 1 else 1))"
    if "deref a \<noteq> 0" "deref b \<noteq> 0" "isdigit (deref a) \<noteq> isdigit (deref b)"
    using that by (rule loop_mismatch)
  have 2: "natcmp_loop compare a b = Some (Inr (if isdigit (deref a') then - 1 else 1))"
    if nz: "deref a \<noteq> 0" "deref b \<noteq> 0"
      and nd: "\<not> isdigit (deref a)" "\<not> isdigit (deref b)"
      and res: "compare a b None None = (0, Some a', Some b')"
      and nz': "deref a' \<noteq> 0" "deref b' \<noteq> 0"
      and mm: "isdigit (deref a') \<noteq> isdigit (deref b')"
  proof -
    have "natcmp_body compare a b =
        (if deref a' = 0 \<or> deref b' = 0 then Inr (Break a' b')
         else Inr (natcmp_number (isdigit (deref a')) (isdigit (deref b')) a' b'))"
      using nd res by (rule body_strategy_zero)
    then show ?thesis
      using nz' mm by (simp add: loop_step [OF nz] natcmp_number_mismatch)
  qed
  have 3: "natcmp (bytes ''1abc'') (bytes ''abc'') None = Some (Inr (- 1))"
    by (simp add: natcmp_eval)
  from 1 2 3 show ?thesis by blast
qed

theorem natcmp_digit_before_nondigit_witness:
  "deref (bytes ''x7'') \<noteq> 0 \<and> deref (bytes ''7x'') \<noteq> 0
   \<and> isdigit (deref (bytes ''x7'')) \<noteq> isdigit (deref (bytes ''7x''))
   \<and> natcmp_loop natcmp_nondigit_cmp_ascii (bytes ''x7'') (bytes ''7x'') = Some (Inr 1)
   \<and> deref (bytes ''a1'') \<noteq> 0 \<and> deref (bytes ''ab'') \<noteq> 0
   \<and> \<not> isdigit (deref (bytes ''a1'')) \<and> \<not> isdigit (deref (bytes ''ab''))
   \<and> strcmp_cb (bytes ''a1'') (bytes ''ab'') None None =
       (0, Some (bytes ''1''), Some (bytes ''b''))
   \<and> deref (bytes ''1'') \<noteq> 0 \<and> deref (bytes ''b'') \<noteq> 0
   \<and> isdigit (deref (bytes ''1'')) \<noteq> isdigit (deref (bytes ''b''))
   \<and> natcmp_loop strcmp_cb (bytes ''a1'') (bytes ''ab'') = Some (Inr (- 1))"
  using natcmp_digit_before_nondigit [of "bytes ''x7''" "bytes ''7x''" natcmp_nondigit_cmp_ascii]
    natcmp_digit_before_nondigit [of "bytes ''a1''" "bytes ''ab''" strcmp_cb
      "bytes ''1''" "bytes ''b''"]
  by (simp add: strcmp_cb_def bytes_def deref_def isdigit_def)

subsection \<open>C7\<close>

text \<open>
  C7: when the loop ends because a cursor has reached its terminator, at the loop test or
  by the \<^verbatim>\<open>break\<close> after a strategy call, the result is 1 if only the cursor of
  \<open>b\<close> is at its terminator, \<open>-1\<close> if only the cursor of \<open>a\<close> is, and 0 if both
  are; this holds for every strategy. In particular the empty string equals itself and is
  smaller than \<^verbatim>\<open>"a"\<close>.
\<close>

theorem natcmp_terminator_result:
  "(deref a = 0 \<or> deref b = 0 \<longrightarrow>
      natcmp_loop compare a b =
        Some (Inr (if deref a \<noteq> 0 then 1 else if deref b \<noteq> 0 then - 1 else 0)))
   \<and> (deref a \<noteq> 0 \<and> deref b \<noteq> 0 \<and> natcmp_body compare a b = Inr (Break a' b') \<longrightarrow>
      (deref a' = 0 \<or> deref b' = 0) \<and>
      natcmp_loop compare a b =
        Some (Inr (if deref a' \<noteq> 0 then 1 else if deref b' \<noteq> 0 then - 1 else 0)))
   \<and> natcmp (bytes '''') (bytes '''') None = Some (Inr 0)
   \<and> natcmp (bytes '''') (bytes ''a'') None = Some (Inr (- 1))
   \<and> natcmp (bytes ''a'') (bytes '''') None = Some (Inr 1)"
proof -
  have 1: "natcmp_loop compare a b =
        Some (Inr (if deref a \<noteq> 0 then 1 else if deref b \<noteq> 0 then - 1 else 0))"
    if "deref a = 0 \<or> deref b = 0"
    using that by (auto simp: loop_end natcmp_tail_def)
  have 2: "(deref a' = 0 \<or> deref b' = 0) \<and>
      natcmp_loop compare a b =
        Some (Inr (if deref a' \<noteq> 0 then 1 else if deref b' \<noteq> 0 then - 1 else 0))"
    if nz: "deref a \<noteq> 0" "deref b \<noteq> 0" and br: "natcmp_body compare a b = Inr (Break a' b')"
  proof -
    have stop: "deref a' = 0 \<or> deref b' = 0"
      using br
      by (auto simp: natcmp_body_def natcmp_number_def Let_def
          split: if_splits prod.splits option.splits)
    then show ?thesis
      using br by (auto simp: loop_step [OF nz] natcmp_tail_def)
  qed
  have 3: "natcmp (bytes '''') (bytes '''') None = Some (Inr 0)"
    "natcmp (bytes '''') (bytes ''a'') None = Some (Inr (- 1))"
    "natcmp (bytes ''a'') (bytes '''') None = Some (Inr 1)"
    by (simp_all add: natcmp_eval)
  from 1 2 3 show ?thesis by blast
qed

theorem natcmp_terminator_result_witness:
  "(deref (bytes ''abc'') = 0 \<or> deref (bytes '''') = 0)
   \<and> natcmp_loop strcmp_cb (bytes ''abc'') (bytes '''') = Some (Inr 1)
   \<and> deref (bytes ''ab'') \<noteq> 0 \<and> deref (bytes ''ab1'') \<noteq> 0
   \<and> natcmp_body natcmp_nondigit_cmp_ascii (bytes ''ab'') (bytes ''ab1'') =
       Inr (Break (bytes '''') (bytes ''1''))
   \<and> natcmp_loop natcmp_nondigit_cmp_ascii (bytes ''ab'') (bytes ''ab1'') = Some (Inr (- 1))"
  using natcmp_terminator_result [of "bytes ''abc''" "bytes ''''" strcmp_cb]
    natcmp_terminator_result [of "bytes ''ab''" "bytes ''ab1''" natcmp_nondigit_cmp_ascii
      "bytes ''''" "bytes ''1''"]
  by (simp add: natcmp_body_def natcmp_nondigit_cmp_ascii_def bytes_def deref_def isdigit_def
      tolower_def Let_def)

subsection \<open>C8\<close>

text \<open>
  C8: for every pair of strings, a call with a \<^verbatim>\<open>NULL\<close> strategy gives exactly the
  result of a call with \<^verbatim>\<open>natcmp_nondigit_cmp_ascii\<close>, and that call returns.
\<close>

theorem natcmp_null_strategy:
  "natcmp a b None = natcmp a b (Some natcmp_nondigit_cmp_ascii)
   \<and> (\<exists>r. natcmp a b None = Some (Inr r))"
  by (simp add: natcmp_def loop_key)

subsection \<open>C9\<close>

text \<open>
  C9, as amended: for every pair of strings and every strategy that moves forward (called
  on two cursors on non-digit bytes, a result of 0 comes with both output cells written,
  to positions in the rest of the two strings, at least one of them further on), the
  comparator returns exactly one of \<open>-1\<close>, 0 and 1. For every strategy whatsoever, a
  value the comparator returns is one of \<open>-1\<close>, 0 and 1, and what the comparator does
  depends only on the sign of each result of the strategy, not on its magnitude: two
  strategies that agree on the signs of their results and on the output cells, such as a
  strategy and the same strategy with every result replaced by its sign, give the same
  outcome.

  The claim as stated, for every strategy function, fails: with a strategy that returns 0
  and sets the output cells to the cursors it was given the loop never ends, and with a
  strategy that returns 0 and writes nothing the function reads through a
  \<^verbatim>\<open>NULL\<close> cursor.
\<close>

theorem natcmp_strategy_sign:
  "(advances compare \<longrightarrow>
      (\<exists>r. natcmp a b (Some compare) = Some (Inr r) \<and> (r = - 1 \<or> r = 0 \<or> r = 1)))
   \<and> (natcmp a b (Some compare) = Some (Inr r) \<longrightarrow> r = - 1 \<or> r = 0 \<or> r = 1)
   \<and> ((\<forall>x y. sgn (fst (compare' x y None None)) = sgn (fst (compare x y None None)) \<and>
              snd (compare' x y None None) = snd (compare x y None None)) \<longrightarrow>
       natcmp a b (Some compare') = natcmp a b (Some compare))
   \<and> natcmp a b (Some (sign_strategy compare)) = natcmp a b (Some compare)"
proof -
  have 1: "\<exists>r. natcmp a b (Some compare) = Some (Inr r) \<and> (r = - 1 \<or> r = 0 \<or> r = 1)"
    if "advances compare"
    using loop_advances [OF that] by (simp add: natcmp_def)
  have 2: "r = - 1 \<or> r = 0 \<or> r = 1" if "natcmp a b (Some compare) = Some (Inr r)"
    using that loop_values_Some [of compare a b "Inr r"] by (simp add: natcmp_def)
  have 3: "natcmp a b (Some c') = natcmp a b (Some compare)"
    if "\<forall>x y. sgn (fst (c' x y None None)) = sgn (fst (compare x y None None)) \<and>
              snd (c' x y None None) = snd (compare x y None None)" for c'
  proof -
    have "natcmp_body c' x y = natcmp_body compare x y" for x y
      using that by (intro body_sign_cong) simp_all
    then have "natcmp_loop c' a b = natcmp_loop compare a b"
      by (rule loop_body_cong)
    then show ?thesis by (simp add: natcmp_def)
  qed
  have 4: "natcmp a b (Some (sign_strategy compare)) = natcmp a b (Some compare)"
    by (rule 3) (simp add: sign_strategy_def split_beta)
  from 1 2 3 [of compare'] 4 show ?thesis by blast
qed

theorem natcmp_strategy_sign_witness:
  "advances natcmp_nondigit_cmp_ascii \<and> advances strcmp_cb
   \<and> advances (scale_strategy 7 natcmp_nondigit_cmp_ascii)
   \<and> (\<forall>x y. sgn (fst (scale_strategy 7 natcmp_nondigit_cmp_ascii x y None None)) =
             sgn (fst (natcmp_nondigit_cmp_ascii x y None None)) \<and>
             snd (scale_strategy 7 natcmp_nondigit_cmp_ascii x y None None) =
             snd (natcmp_nondigit_cmp_ascii x y None None))
   \<and> scale_strategy 7 natcmp_nondigit_cmp_ascii (bytes ''x9'') (bytes ''y10'') None None =
       (- 7, None, None)
   \<and> natcmp (bytes ''x9'') (bytes ''y10'') (Some (scale_strategy 7 natcmp_nondigit_cmp_ascii)) =
       Some (Inr (- 1))
   \<and> natcmp (bytes ''a1'') (bytes ''ab'') (Some strcmp_cb) = Some (Inr (- 1))"
proof -
  have adv: "advances (scale_strategy 7 natcmp_nondigit_cmp_ascii)"
    by (simp add: advances_scale advances_ascii)
  have sg: "\<forall>x y. sgn (fst (scale_strategy 7 natcmp_nondigit_cmp_ascii x y None None)) =
             sgn (fst (natcmp_nondigit_cmp_ascii x y None None)) \<and>
             snd (scale_strategy 7 natcmp_nondigit_cmp_ascii x y None None) =
             snd (natcmp_nondigit_cmp_ascii x y None None)"
    by (simp add: scale_strategy_def split_beta sgn_mult)
  have sc: "scale_strategy 7 natcmp_nondigit_cmp_ascii (bytes ''x9'') (bytes ''y10'') None None =
       (- 7, None, None)"
    by (simp add: scale_strategy_def natcmp_nondigit_cmp_ascii_def bytes_def isdigit_def
        tolower_def deref_def Let_def)
  have ev: "natcmp (bytes ''x9'') (bytes ''y10'') (Some natcmp_nondigit_cmp_ascii) =
      Some (Inr (- 1))"
    by (simp add: natcmp_eval)
  have e1: "natcmp (bytes ''x9'') (bytes ''y10'')
      (Some (scale_strategy 7 natcmp_nondigit_cmp_ascii)) = Some (Inr (- 1))"
    using natcmp_strategy_sign [where compare = natcmp_nondigit_cmp_ascii
        and compare' = "scale_strategy 7 natcmp_nondigit_cmp_ascii"
        and a = "bytes ''x9''" and b = "bytes ''y10''"] sg ev
    by simp
  have e2: "natcmp (bytes ''a1'') (bytes ''ab'') (Some strcmp_cb) = Some (Inr (- 1))"
    by (simp add: natcmp_def natcmp_loop.simps natcmp_body_def natcmp_number_def strcmp_cb_def
        bytes_def deref_def isdigit_def Let_def)
  from advances_ascii advances_strcmp_cb adv sg sc e1 e2 show ?thesis by blast
qed

theorem natcmp_strategy_counterexample:
  "natcmp (bytes ''a'') (bytes ''a'') (Some stuck_strategy) = None
   \<and> natcmp (bytes ''a'') (bytes ''a'') (Some silent_strategy) = Some (Inl NullDeref)"
proof -
  have n: "nondigit (deref (bytes ''a''))"
    by (simp add: nondigit_def bytes_def deref_def isdigit_def)
  have 1: "natcmp (bytes ''a'') (bytes ''a'') (Some stuck_strategy) = None"
  proof (cases "natcmp_loop stuck_strategy (bytes ''a'') (bytes ''a'')")
    case None
    then show ?thesis by (simp add: natcmp_def)
  next
    case (Some y)
    from stuck_never_returns [OF Some] n show ?thesis by simp
  qed
  have 2: "natcmp (bytes ''a'') (bytes ''a'') (Some silent_strategy) = Some (Inl NullDeref)"
    by (simp add: natcmp_def natcmp_loop.simps natcmp_body_def silent_strategy_def bytes_def
        deref_def isdigit_def Let_def)
  from 1 2 show ?thesis ..
qed

subsection \<open>C10\<close>

text \<open>
  C10: with the default strategy the comparator returns 0 if and only if the two strings
  have the same length and are equal byte for byte after ASCII case folding. Two bytes are
  equal after folding exactly when they are the same byte or the upper-case and lower-case
  form of one letter, so every digit, leading zeros included, is compared as it is. In
  particular every string compares as 0 with itself, and two strings of different lengths
  never compare as 0.
\<close>

theorem natcmp_zero_iff:
  "(natcmp a b None = Some (Inr 0)) =
     (strlen a = strlen b \<and> map tolower (c_str a) = map tolower (c_str b))
   \<and> natcmp x x None = Some (Inr 0)
   \<and> (strlen a \<noteq> strlen b \<longrightarrow> (\<exists>r. natcmp a b None = Some (Inr r) \<and> r \<noteq> 0))
   \<and> (tolower c = tolower d) =
       (c = d \<or> (65 \<le> c \<and> c \<le> 90 \<and> d = c + 32) \<or> (65 \<le> d \<and> d \<le> 90 \<and> c = d + 32))"
proof -
  have len: "strlen a = strlen b" if "map tolower (c_str a) = map tolower (c_str b)"
    using that unfolding strlen_def by (metis length_map)
  have z: "(natcmp a b None = Some (Inr 0)) = (key a = key b)"
    by (simp add: natcmp_default_key three_way_def)
  have 1: "(natcmp a b None = Some (Inr 0)) =
     (strlen a = strlen b \<and> map tolower (c_str a) = map tolower (c_str b))"
    using len by (auto simp: z key_eq_iff)
  have 2: "natcmp x x None = Some (Inr 0)"
    by (simp add: natcmp_default_key three_way_refl)
  have 3: "\<exists>r. natcmp a b None = Some (Inr r) \<and> r \<noteq> 0" if "strlen a \<noteq> strlen b"
    using that 1 by (auto simp: natcmp_default_key)
  have 4: "(tolower c = tolower d) =
       (c = d \<or> (65 \<le> c \<and> c \<le> 90 \<and> d = c + 32) \<or> (65 \<le> d \<and> d \<le> 90 \<and> c = d + 32))"
    by (rule tolower_eq_iff)
  from 1 2 3 4 show ?thesis by blast
qed

theorem natcmp_zero_iff_witness:
  "strlen (bytes ''a07'') \<noteq> strlen (bytes ''A7'')
   \<and> (\<exists>r. natcmp (bytes ''a07'') (bytes ''A7'') None = Some (Inr r) \<and> r \<noteq> 0)
   \<and> natcmp (bytes ''File07'') (bytes ''fILE07'') None = Some (Inr 0)"
proof -
  have "strlen (bytes ''a07'') \<noteq> strlen (bytes ''A7'')"
    by (simp add: strlen_def c_str_def bytes_def)
  moreover have "strlen (bytes ''File07'') = strlen (bytes ''fILE07'') \<and>
      map tolower (c_str (bytes ''File07'')) = map tolower (c_str (bytes ''fILE07''))"
    by (simp add: strlen_def c_str_def bytes_def tolower_def)
  ultimately show ?thesis
    using natcmp_zero_iff [of "bytes ''a07''" "bytes ''A7''"]
      natcmp_zero_iff [of "bytes ''File07''" "bytes ''fILE07''"]
    by blast
qed

end
